theory Spec2Isabelle
  imports Main "HOL-Library.Sublist" "HOL-Library.Multiset"
begin

section \<open>Python values met by the extractor\<close>

text \<open>
  A Python \<^verbatim>\<open>str\<close> is a sequence of Unicode code points, so it is modelled as a list of
  naturals (a \<^typ>\<open>char\<close> of HOL is one byte and could not hold a code point above 255,
  which \<^verbatim>\<open>fix_encoding\<close> must tell apart). \<open>ustr\<close> turns an ASCII literal into such a
  sequence. \<^verbatim>\<open>bytes\<close> are lists of naturals below 256.
\<close>

type_synonym pystr = "nat list"

definition ustr :: "string \<Rightarrow> pystr" where
  "ustr s = map of_char s"

text \<open>
  What \<^verbatim>\<open>json.load\<close> returns. An object is kept as its list of pairs, one pair per key
  (the parser keeps one value per key), looked up with \<open>map_of\<close>. Numbers with a fraction
  or an exponent (Python floats) are outside the model.
\<close>

datatype json =
    JNull
  | JBool bool
  | JInt int
  | JStr pystr
  | JList "json list"
  | JObj "(pystr \<times> json) list"

text \<open>
  The exceptions the program can meet. Every raise of the source is a branch returning
  \<open>Inl\<close>; \<^verbatim>\<open>JSONDecodeError\<close> carries the parser's message.
\<close>

datatype py_error =
    AttributeError
  | TypeError
  | ValueError
  | OverflowError
  | OSError
  | UnicodeDecodeError
  | JSONDecodeError pystr

definition sbind :: "'e + 'a \<Rightarrow> ('a \<Rightarrow> 'e + 'b) \<Rightarrow> 'e + 'b" where
  "sbind m f = (case m of Inl e \<Rightarrow> Inl e | Inr v \<Rightarrow> f v)"

text \<open>Truth value testing: \<^verbatim>\<open>None\<close>, \<^verbatim>\<open>False\<close>, zero and empty containers are false.\<close>

fun py_truthy :: "json \<Rightarrow> bool" where
  "py_truthy JNull = False"
| "py_truthy (JBool b) = b"
| "py_truthy (JInt n) = (n \<noteq> 0)"
| "py_truthy (JStr s) = (s \<noteq> [])"
| "py_truthy (JList xs) = (xs \<noteq> [])"
| "py_truthy (JObj kvs) = (kvs \<noteq> [])"

text \<open>\<^verbatim>\<open>x.get(k, d)\<close>: only a dict has the method.\<close>

fun py_get :: "json \<Rightarrow> pystr \<Rightarrow> json \<Rightarrow> py_error + json" where
  "py_get (JObj kvs) k d = Inr (case map_of kvs k of None \<Rightarrow> d | Some v \<Rightarrow> v)"
| "py_get _ k d = Inl AttributeError"

text \<open>
  \<^verbatim>\<open>for x in v\<close>: a list gives its elements, a dict its keys, a str its characters;
  \<^verbatim>\<open>None\<close>, booleans and integers are not iterable.
\<close>

fun py_iter :: "json \<Rightarrow> py_error + json list" where
  "py_iter (JList xs) = Inr xs"
| "py_iter (JObj kvs) = Inr (map (\<lambda>kv. JStr (fst kv)) kvs)"
| "py_iter (JStr s) = Inr (map (\<lambda>c. JStr [c]) s)"
| "py_iter _ = Inl TypeError"

section \<open>Text normaliser: \<^verbatim>\<open>fix_encoding\<close>\<close>

text \<open>\<^verbatim>\<open>text.encode('latin-1')\<close>: every code point must be below 256 (else UnicodeEncodeError).\<close>

definition latin1_encode :: "pystr \<Rightarrow> nat list option" where
  "latin1_encode s = (if list_all (\<lambda>c. c < 256) s then Some s else None)"

definition is_cont :: "nat \<Rightarrow> bool" where
  "is_cont c = (0x80 \<le> c \<and> c \<le> 0xBF)"

text \<open>
  \<^verbatim>\<open>bytes.decode('utf-8')\<close> in strict mode: \<open>None\<close> stands for UnicodeDecodeError. No
  overlong form, no surrogate, nothing above U+10FFFF, no truncated sequence.
\<close>

fun utf8_decode :: "nat list \<Rightarrow> pystr option" where
  "utf8_decode [] = Some []"
| "utf8_decode (b # bs) =
     (if b < 0x80 then map_option ((#) b) (utf8_decode bs)
      else if 0xC2 \<le> b \<and> b \<le> 0xDF then
        (case bs of
           c1 # r \<Rightarrow>
             if is_cont c1
             then map_option ((#) ((b - 0xC0) * 0x40 + (c1 - 0x80))) (utf8_decode r)
             else None
         | _ \<Rightarrow> None)
      else if 0xE0 \<le> b \<and> b \<le> 0xEF then
        (case bs of
           c1 # c2 # r \<Rightarrow>
             if (if b = 0xE0 then 0xA0 \<le> c1 \<and> c1 \<le> 0xBF
                 else if b = 0xED then 0x80 \<le> c1 \<and> c1 \<le> 0x9F
                 else is_cont c1) \<and> is_cont c2
             then map_option
                    ((#) ((b - 0xE0) * 0x1000 + (c1 - 0x80) * 0x40 + (c2 - 0x80)))
                    (utf8_decode r)
             else None
         | _ \<Rightarrow> None)
      else if 0xF0 \<le> b \<and> b \<le> 0xF4 then
        (case bs of
           c1 # c2 # c3 # r \<Rightarrow>
             if (if b = 0xF0 then 0x90 \<le> c1 \<and> c1 \<le> 0xBF
                 else if b = 0xF4 then 0x80 \<le> c1 \<and> c1 \<le> 0x8F
                 else is_cont c1) \<and> is_cont c2 \<and> is_cont c3
             then map_option
                    ((#) ((b - 0xF0) * 0x40000 + (c1 - 0x80) * 0x1000
                          + (c2 - 0x80) * 0x40 + (c3 - 0x80)))
                    (utf8_decode r)
             else None
         | _ \<Rightarrow> None)
      else None)"

text \<open>
  \<^verbatim>\<open>
  def fix_encoding(text: str) -> str:
      if not text:
          return text
      try:
          return text.encode('latin-1').decode('utf-8')
      except (UnicodeDecodeError, UnicodeEncodeError):
          return text
  \<close>
  The argument comes from a JSON document, so it can be any value: a false one is handed
  back as it is, and a true one that is not a str has no \<^verbatim>\<open>encode\<close> (AttributeError, which
  the handler does not catch).
\<close>

definition fix_encoding :: "json \<Rightarrow> py_error + json" where
  "fix_encoding text =
     (if \<not> py_truthy text then Inr text
      else case text of
             JStr s \<Rightarrow>
               (case latin1_encode s of
                  None \<Rightarrow> Inr text
                | Some bs \<Rightarrow>
                    (case utf8_decode bs of
                       None \<Rightarrow> Inr text
                     | Some t \<Rightarrow> Inr (JStr t)))
           | _ \<Rightarrow> Inl AttributeError)"

section \<open>Posts\<close>

text \<open>
  The dataclass \<^verbatim>\<open>FacebookPost\<close>. Python does not enforce the annotations, so the fields
  hold what the extractor puts there: the timestamp, the text, the title, the tag names
  and the external URL come out of the document as JSON values; the photo paths have
  passed \<^verbatim>\<open>uri.lower()\<close> and are strs.
\<close>

record FacebookPost =
  timestamp :: json
  post_text :: json
  title :: json
  photo_paths :: "pystr list"
  photo_filenames :: "pystr list"
  date_string :: pystr
  tags :: "json list"
  external_url :: json

text \<open>
  Library functions whose tables are not part of the repository are parameters:
  \<^verbatim>\<open>datetime.fromtimestamp(t).strftime("%Y-%m-%d %H:%M:%S")\<close> (it depends on the local
  time zone and raises on a timestamp out of the platform's range), \<^verbatim>\<open>str.lower\<close>
  (the Unicode case table) and \<^verbatim>\<open>Path(p).name\<close> (the path flavour).
\<close>

record runtime =
  local_strftime :: "int \<Rightarrow> py_error + pystr"
  str_lower :: "pystr \<Rightarrow> pystr"
  path_name :: "pystr \<Rightarrow> pystr"

text \<open>
  \<^verbatim>\<open>
  def __post_init__(self):
      if self.timestamp:
          self.date_string = datetime.fromtimestamp(self.timestamp).strftime(...)
  \<close>
  A boolean is an integer for \<^verbatim>\<open>fromtimestamp\<close>; any other true value is a TypeError.
\<close>

definition post_init_date :: "runtime \<Rightarrow> json \<Rightarrow> py_error + pystr" where
  "post_init_date rt ts =
     (if \<not> py_truthy ts then Inr []
      else case ts of
             JInt n \<Rightarrow> local_strftime rt n
           | JBool b \<Rightarrow> local_strftime rt 1
           | _ \<Rightarrow> Inl TypeError)"

definition new_post ::
  "runtime \<Rightarrow> json \<Rightarrow> json \<Rightarrow> json \<Rightarrow> pystr list \<Rightarrow> pystr list \<Rightarrow> json list \<Rightarrow> json
     \<Rightarrow> py_error + FacebookPost" where
  "new_post rt ts text ttl paths names tgs url =
     sbind (post_init_date rt ts) (\<lambda>d.
       Inr \<lparr>timestamp = ts, post_text = text, title = ttl, photo_paths = paths,
            photo_filenames = names, date_string = d, tags = tgs, external_url = url\<rparr>)"

section \<open>Post extractor: \<^verbatim>\<open>extract_posts_from_json\<close>\<close>

text \<open>Loops and comprehensions that can raise: the first error ends them.\<close>

fun map_raise :: "('a \<Rightarrow> 'e + 'b) \<Rightarrow> 'a list \<Rightarrow> 'e + 'b list" where
  "map_raise f [] = Inr []"
| "map_raise f (x # xs) =
     (case f x of
        Inl e \<Rightarrow> Inl e
      | Inr y \<Rightarrow> (case map_raise f xs of Inl e \<Rightarrow> Inl e | Inr ys \<Rightarrow> Inr (y # ys)))"

fun fold_raise :: "('s \<Rightarrow> 'a \<Rightarrow> 'e + 's) \<Rightarrow> 's \<Rightarrow> 'a list \<Rightarrow> 'e + 's" where
  "fold_raise f s [] = Inr s"
| "fold_raise f s (x # xs) =
     (case f s x of Inl e \<Rightarrow> Inl e | Inr s' \<Rightarrow> fold_raise f s' xs)"

text \<open>
  \<^verbatim>\<open>
  post_text = ""
  for d in item.get("data", []):
      if d.get("post"):
          post_text = fix_encoding(d["post"])
          break
  \<close>
\<close>

fun first_post_text :: "json list \<Rightarrow> py_error + json" where
  "first_post_text [] = Inr (JStr [])"
| "first_post_text (d # ds) =
     (case py_get d (ustr ''post'') JNull of
        Inl e \<Rightarrow> Inl e
      | Inr v \<Rightarrow> if py_truthy v then fix_encoding v else first_post_text ds)"

definition item_text :: "json \<Rightarrow> py_error + json" where
  "item_text item =
     sbind (py_get item (ustr ''data'') (JList [])) (\<lambda>data.
     sbind (py_iter data) first_post_text)"

text \<open>\<^verbatim>\<open>title = fix_encoding(item.get("title", ""))\<close>\<close>

definition item_title :: "json \<Rightarrow> py_error + json" where
  "item_title item = sbind (py_get item (ustr ''title'') (JStr [])) fix_encoding"

text \<open>\<^verbatim>\<open>tags = [fix_encoding(t.get("name", "")) for t in item.get("tags", [])]\<close>\<close>

definition item_tags :: "json \<Rightarrow> py_error + json list" where
  "item_tags item =
     sbind (py_get item (ustr ''tags'') (JList [])) (\<lambda>ts.
     sbind (py_iter ts)
       (map_raise (\<lambda>t. sbind (py_get t (ustr ''name'') (JStr [])) fix_encoding)))"

text \<open>
  \<^verbatim>\<open>
  if uri and "sticker" not in uri.lower():
      photo_paths.append(uri)
  \<close>
  A true \<^verbatim>\<open>uri\<close> that is not a str has no \<^verbatim>\<open>lower\<close>.
\<close>

definition add_photo :: "runtime \<Rightarrow> pystr list \<Rightarrow> json \<Rightarrow> py_error + pystr list" where
  "add_photo rt photos uri =
     (if \<not> py_truthy uri then Inr photos
      else case uri of
             JStr u \<Rightarrow>
               Inr (if sublist (ustr ''sticker'') (str_lower rt u) then photos
                    else photos @ [u])
           | _ \<Rightarrow> Inl AttributeError)"

text \<open>
  The body of the inner loop over \<^verbatim>\<open>attachment.get("data", [])\<close>; the state is
  \<^verbatim>\<open>(photo_paths, external_url)\<close>.
  \<^verbatim>\<open>
  if att_data.get("media"):
      media = att_data["media"]
      uri = media.get("uri", "")
      if uri and "sticker" not in uri.lower():
          photo_paths.append(uri)
  if att_data.get("external_context"):
      external_url = att_data["external_context"].get("url", "")
  \<close>
\<close>

definition scan_att_data ::
  "runtime \<Rightarrow> pystr list \<times> json \<Rightarrow> json \<Rightarrow> py_error + (pystr list \<times> json)" where
  "scan_att_data rt st att_data =
     sbind (py_get att_data (ustr ''media'') JNull) (\<lambda>media.
     sbind (if py_truthy media
            then sbind (py_get media (ustr ''uri'') (JStr [])) (add_photo rt (fst st))
            else Inr (fst st)) (\<lambda>photos.
     sbind (py_get att_data (ustr ''external_context'') JNull) (\<lambda>ec.
       if py_truthy ec
       then sbind (py_get ec (ustr ''url'') (JStr [])) (\<lambda>u. Inr (photos, u))
       else Inr (photos, snd st))))"

definition scan_attachment ::
  "runtime \<Rightarrow> pystr list \<times> json \<Rightarrow> json \<Rightarrow> py_error + (pystr list \<times> json)" where
  "scan_attachment rt st attachment =
     sbind (py_get attachment (ustr ''data'') (JList [])) (\<lambda>d.
     sbind (py_iter d) (fold_raise (scan_att_data rt) st))"

definition item_attachments :: "runtime \<Rightarrow> json \<Rightarrow> py_error + (pystr list \<times> json)" where
  "item_attachments rt item =
     sbind (py_get item (ustr ''attachments'') (JList [])) (\<lambda>a.
     sbind (py_iter a) (fold_raise (scan_attachment rt) ([], JStr [])))"

text \<open>
  The loop body after the duplicate check (source lines 48 to 82): the fields are
  extracted in the source's order, and the post is built only
  \<^verbatim>\<open>if post_text or photo_paths\<close>.
\<close>

definition build_post :: "runtime \<Rightarrow> json \<Rightarrow> json \<Rightarrow> py_error + FacebookPost option" where
  "build_post rt ts item =
     sbind (item_text item) (\<lambda>text.
     sbind (item_title item) (\<lambda>ttl.
     sbind (item_tags item) (\<lambda>tgs.
     sbind (item_attachments rt item) (\<lambda>att.
       if py_truthy text \<or> fst att \<noteq> []
       then sbind (new_post rt ts text ttl (fst att) (map (path_name rt) (fst att)) tgs (snd att))
              (\<lambda>p. Inr (Some p))
       else Inr None))))"

text \<open>
  Membership in a Python set goes by hash and equality: a list or a dict cannot be hashed
  (TypeError), and \<^verbatim>\<open>True == 1\<close>, \<^verbatim>\<open>False == 0\<close>. The set of seen timestamps holds the
  keys in the normal form \<open>hash_key\<close>.
\<close>

fun hashable :: "json \<Rightarrow> bool" where
  "hashable (JList xs) = False"
| "hashable (JObj kvs) = False"
| "hashable _ = True"

fun hash_key :: "json \<Rightarrow> json" where
  "hash_key (JBool b) = JInt (if b then 1 else 0)"
| "hash_key v = v"

text \<open>
  \<^verbatim>\<open>
  for item in data:
      timestamp = item.get("timestamp", 0)
      if timestamp in seen_timestamps:
          continue
      seen_timestamps.add(timestamp)
      ...
      if post_text or photo_paths:
          ...
          posts.append(post)
  \<close>
  The body of the loop; the state is \<^verbatim>\<open>(seen_timestamps, posts)\<close>. The timestamp enters
  \<^verbatim>\<open>seen_timestamps\<close> before the record is examined.
\<close>

definition extract_step ::
  "runtime \<Rightarrow> json set \<times> FacebookPost list \<Rightarrow> json
     \<Rightarrow> py_error + (json set \<times> FacebookPost list)" where
  "extract_step rt st item =
     sbind (py_get item (ustr ''timestamp'') (JInt 0)) (\<lambda>ts.
       if \<not> hashable ts then Inl TypeError
       else if hash_key ts \<in> fst st then Inr st
       else sbind (build_post rt ts item) (\<lambda>r.
              Inr (insert (hash_key ts) (fst st),
                   (case r of None \<Rightarrow> snd st | Some p \<Rightarrow> snd st @ [p]))))"

definition extract_posts_from_json :: "runtime \<Rightarrow> json \<Rightarrow> py_error + FacebookPost list" where
  "extract_posts_from_json rt data =
     sbind (py_iter data) (\<lambda>items.
     sbind (fold_raise (extract_step rt) ({}, []) items) (\<lambda>st. Inr (snd st)))"

section \<open>Archive loader: \<^verbatim>\<open>load_and_merge_posts\<close>\<close>

text \<open>
  A file is its path and the outcome of \<^verbatim>\<open>open\<close> and \<^verbatim>\<open>json.load\<close>: the parsed document or
  the exception raised.
\<close>

type_synonym json_file = "pystr \<times> (py_error + json)"

text \<open>
  \<^verbatim>\<open>
  for post in posts:
      if post.timestamp not in seen_timestamps:
          seen_timestamps.add(post.timestamp)
          all_posts.append(post)
  \<close>
  The timestamp of a post was hashed by the extractor already, so hashing cannot fail here.
\<close>

fun accept_posts ::
  "FacebookPost list \<times> json set \<Rightarrow> FacebookPost list \<Rightarrow> FacebookPost list \<times> json set" where
  "accept_posts st [] = st"
| "accept_posts st (p # ps) =
     (if hash_key (timestamp p) \<notin> snd st
      then accept_posts (fst st @ [p], insert (hash_key (timestamp p)) (snd st)) ps
      else accept_posts st ps)"

text \<open>
  The body of the loop over the files; the state is \<^verbatim>\<open>all_posts\<close>, the global
  \<^verbatim>\<open>seen_timestamps\<close> and the lines printed so far. Only \<^verbatim>\<open>json.JSONDecodeError\<close> is
  caught; every other exception ends the run.
\<close>

definition load_file ::
  "runtime \<Rightarrow> FacebookPost list \<times> json set \<times> pystr list \<Rightarrow> json_file
     \<Rightarrow> py_error + (FacebookPost list \<times> json set \<times> pystr list)" where
  "load_file rt st file =
     (let all = fst st; seen = fst (snd st);
          out = snd (snd st) @ [ustr ''Processing: '' @ fst file]
      in case snd file of
           Inl (JSONDecodeError msg) \<Rightarrow>
             Inr (all, seen, out @ [ustr ''Error reading '' @ fst file @ ustr '': '' @ msg])
         | Inl e \<Rightarrow> Inl e
         | Inr data \<Rightarrow>
             sbind (extract_posts_from_json rt data) (\<lambda>posts.
               Inr (fst (accept_posts (all, seen) posts),
                    snd (accept_posts (all, seen) posts), out)))"

definition load_loop ::
  "runtime \<Rightarrow> json_file list \<Rightarrow> py_error + (FacebookPost list \<times> json set \<times> pystr list)" where
  "load_loop rt files = fold_raise (load_file rt) ([], {}, []) files"

text \<open>
  \<^verbatim>\<open>all_posts.sort(key=lambda p: p.timestamp, reverse=True)\<close>. Integers and booleans
  compare as numbers, and the sort is stable, also with \<^verbatim>\<open>reverse=True\<close>. The keys that
  reach this line were hashed, and a true str never gets past \<^verbatim>\<open>__post_init__\<close>, so a key
  is a number, \<^verbatim>\<open>None\<close> or the empty str, the last two at most once each; with two or more
  posts such a key is compared with another one, which raises TypeError. A list of at
  most one post is sorted without a comparison.
\<close>

fun is_number :: "json \<Rightarrow> bool" where
  "is_number (JInt n) = True"
| "is_number (JBool b) = True"
| "is_number _ = False"

fun number_of :: "json \<Rightarrow> int" where
  "number_of (JInt n) = n"
| "number_of (JBool b) = (if b then 1 else 0)"
| "number_of _ = 0"

definition sort_posts :: "FacebookPost list \<Rightarrow> py_error + FacebookPost list" where
  "sort_posts ps =
     (if length ps \<le> 1 then Inr ps
      else if list_all (\<lambda>p. is_number (timestamp p)) ps
      then Inr (sort_key (\<lambda>p. - number_of (timestamp p)) ps)
      else Inl TypeError)"

text \<open>The function returns \<^verbatim>\<open>all_posts\<close>; the model also returns what was printed.\<close>

definition load_and_merge_posts ::
  "runtime \<Rightarrow> json_file list \<Rightarrow> py_error + (FacebookPost list \<times> pystr list)" where
  "load_and_merge_posts rt files =
     sbind (load_loop rt files) (\<lambda>st.
     sbind (sort_posts (fst st)) (\<lambda>sorted. Inr (sorted, snd (snd st))))"

section \<open>HTML renderer: \<^verbatim>\<open>generate_html\<close>\<close>

text \<open>\<^verbatim>\<open>s.replace(c, r)\<close> for a pattern \<^verbatim>\<open>c\<close> of one character.\<close>

definition replace_char :: "nat \<Rightarrow> pystr \<Rightarrow> pystr \<Rightarrow> pystr" where
  "replace_char c r s = concat (map (\<lambda>x. if x = c then r else [x]) s)"

text \<open>
  The library function \<^verbatim>\<open>html.escape(s)\<close>, with \<^verbatim>\<open>quote=True\<close> as the renderer calls it:
  \<^verbatim>\<open>
  s = s.replace("&", "&amp;")
  s = s.replace("<", "&lt;")
  s = s.replace(">", "&gt;")
  s = s.replace('"', "&quot;")
  s = s.replace("'", "&#x27;")
  \<close>
\<close>

definition escape_str :: "pystr \<Rightarrow> pystr" where
  "escape_str s =
     replace_char 0x27 (ustr ''&#x27;'')
       (replace_char 0x22 (ustr ''&quot;'')
         (replace_char 0x3E (ustr ''&gt;'')
           (replace_char 0x3C (ustr ''&lt;'')
             (replace_char 0x26 (ustr ''&amp;'') s))))"

text \<open>Called on a value that is not a str, \<^verbatim>\<open>html.escape\<close> finds no \<^verbatim>\<open>replace\<close>.\<close>

fun html_escape :: "json \<Rightarrow> py_error + pystr" where
  "html_escape (JStr s) = Inr (escape_str s)"
| "html_escape _ = Inl AttributeError"

text \<open>\<^verbatim>\<open>sep.join(xs)\<close>: every item must be a str (TypeError otherwise).\<close>

fun str_join :: "pystr \<Rightarrow> json list \<Rightarrow> py_error + pystr" where
  "str_join sep [] = Inr []"
| "str_join sep [JStr s] = Inr s"
| "str_join sep (JStr s # x # xs) =
     (case str_join sep (x # xs) of Inl e \<Rightarrow> Inl e | Inr r \<Rightarrow> Inr (s @ sep @ r))"
| "str_join sep (v # xs) = Inl TypeError"

text \<open>\<^verbatim>\<open>str(n)\<close> for the number of posts.\<close>

fun str_of_nat :: "nat \<Rightarrow> pystr" where
  "str_of_nat n = (if n < 10 then [0x30 + n] else str_of_nat (n div 10) @ [0x30 + n mod 10])"

text \<open>
  \<^verbatim>\<open>
  def copy_photo(photo_path: str) -> str:
      src = extract_dir / photo_path
      if src.exists():
          dest = photos_output_dir / src.name
          if not dest.exists():
              shutil.copy2(src, dest)
          return f"photos/{src.name}"
      return ""
  \<close>
  The file system is a parameter: \<open>fs p = Some n\<close> when \<^verbatim>\<open>extract_dir / p\<close> exists and
  \<open>n\<close> is its name. The model keeps the string returned; the copy itself, like the
  directories made and the file written, is an effect on the disk outside the model.
\<close>

definition copy_photo :: "(pystr \<Rightarrow> pystr option) \<Rightarrow> pystr \<Rightarrow> pystr" where
  "copy_photo fs photo_path =
     (case fs photo_path of Some n \<Rightarrow> ustr ''photos/'' @ n | None \<Rightarrow> [])"

text \<open>
  \<^verbatim>\<open>
  photo_html = ""
  if post.photo_paths:
      photo_copies = []
      for p in post.photo_paths:
          copied_path = copy_photo(p)
          if copied_path:
              photo_copies.append(f'<img src="{html.escape(copied_path)}" alt="Photo" class="post-photo">')
      if photo_copies:
          photo_html = f'<div class="photos">{"".join(photo_copies)}</div>'
  \<close>
\<close>

definition photo_copies :: "(pystr \<Rightarrow> pystr option) \<Rightarrow> pystr list \<Rightarrow> pystr list" where
  \<open>photo_copies fs paths =
     map (\<lambda>c. ustr ''<img src="'' @ escape_str c @ ustr ''" alt="Photo" class="post-photo">'')
       (filter (\<lambda>c. c \<noteq> []) (map (copy_photo fs) paths))\<close>

definition photo_html :: "(pystr \<Rightarrow> pystr option) \<Rightarrow> FacebookPost \<Rightarrow> pystr" where
  \<open>photo_html fs post =
     (if photo_copies fs (photo_paths post) \<noteq> []
      then ustr ''<div class="photos">'' @ concat (photo_copies fs (photo_paths post)) @ ustr ''</div>''
      else [])\<close>

text \<open>
  \<^verbatim>\<open>
  text_html = f'<p class="post-text">{html.escape(post.post_text)}</p>' if post.post_text else ""
  title_html = f'<p class="title">{html.escape(post.title)}</p>' if post.title else ""
  date_html = f'<span class="date">{html.escape(post.date_string)}</span>' if post.date_string else ""
  \<close>
\<close>

definition text_html :: "FacebookPost \<Rightarrow> py_error + pystr" where
  \<open>text_html post =
     (if py_truthy (post_text post)
      then sbind (html_escape (post_text post)) (\<lambda>e.
             Inr (ustr ''<p class="post-text">'' @ e @ ustr ''</p>''))
      else Inr [])\<close>

definition title_html :: "FacebookPost \<Rightarrow> py_error + pystr" where
  \<open>title_html post =
     (if py_truthy (title post)
      then sbind (html_escape (title post)) (\<lambda>e.
             Inr (ustr ''<p class="title">'' @ e @ ustr ''</p>''))
      else Inr [])\<close>

definition date_html :: "FacebookPost \<Rightarrow> pystr" where
  \<open>date_html post =
     (if date_string post \<noteq> []
      then ustr ''<span class="date">'' @ escape_str (date_string post) @ ustr ''</span>''
      else [])\<close>

text \<open>
  \<^verbatim>\<open>
  tags_html = ""
  if post.tags:
      tags_html = f'<div class="tags">Ozna\<dots>en\<dots>: {html.escape(", ".join(post.tags))}</div>'
  external_html = ""
  if post.external_url:
      external_html = f'<a href="{html.escape(post.external_url)}" target="_blank" rel="noopener" class="external-link">Extern\<dots> odkaz</a>'
  \<close>
  (the letters outside ASCII are written as code points in the model).
\<close>

definition tags_html :: "FacebookPost \<Rightarrow> py_error + pystr" where
  \<open>tags_html post =
     (if tags post \<noteq> []
      then sbind (str_join (ustr '', '') (tags post)) (\<lambda>j.
             Inr (ustr ''<div class="tags">Ozna'' @ [0x10D] @ ustr ''en'' @ [0xED] @ ustr '': ''
                  @ escape_str j @ ustr ''</div>''))
      else Inr [])\<close>

definition external_html :: "FacebookPost \<Rightarrow> py_error + pystr" where
  \<open>external_html post =
     (if py_truthy (external_url post)
      then sbind (html_escape (external_url post)) (\<lambda>e.
             Inr (ustr ''<a href="'' @ e
                  @ ustr ''" target="_blank" rel="noopener" class="external-link">Extern''
                  @ [0xFD] @ ustr '' odkaz</a>''))
      else Inr [])\<close>

text \<open>
  The body of the loop over the posts (source lines 161 to 195): the fragments are
  computed in the source's order and put into the template of one post.
\<close>

definition render_post :: "(pystr \<Rightarrow> pystr option) \<Rightarrow> FacebookPost \<Rightarrow> py_error + pystr" where
  \<open>render_post fs post =
     sbind (text_html post) (\<lambda>txt_h.
     sbind (title_html post) (\<lambda>title_h.
     sbind (tags_html post) (\<lambda>tags_h.
     sbind (external_html post) (\<lambda>external_h.
       Inr (ustr ''\<newline>'' @
            ustr ''        <div class="post">\<newline>'' @
            ustr ''            <div class="post-header">\<newline>'' @
            ustr ''                '' @ date_html post @ ustr ''\<newline>'' @
            ustr ''            </div>\<newline>'' @
            ustr ''            '' @ title_h @ ustr ''\<newline>'' @
            ustr ''            '' @ txt_h @ ustr ''\<newline>'' @
            ustr ''            '' @ photo_html fs post @ ustr ''\<newline>'' @
            ustr ''            '' @ tags_h @ ustr ''\<newline>'' @
            ustr ''            '' @ external_h @ ustr ''\<newline>'' @
            ustr ''        </div>\<newline>'' @
            ustr ''        '')))))\<close>

text \<open>
  The page template (source lines 197 to 292), cut at \<^verbatim>\<open>{len(posts)}\<close> and at
  \<^verbatim>\<open>{"".join(html_items)}\<close>; a doubled brace of the f-string is one brace.
\<close>

definition page_head :: pystr where
  \<open>page_head =
     ustr ''<!DOCTYPE html>\<newline>'' @
     ustr ''<html lang="sk">\<newline>'' @
     ustr ''<head>\<newline>'' @
     ustr ''    <meta charset="UTF-8">\<newline>'' @
     ustr ''    <meta name="viewport" content="width=device-width, initial-scale=1.0">\<newline>'' @
     ustr ''    <title>Arch'' @
     [0xED] @
     ustr ''v Facebook pr'' @
     [0xED] @
     ustr ''spevkov</title>\<newline>'' @
     ustr ''    <style>\<newline>'' @
     ustr ''        * {\<newline>'' @
     ustr ''            box-sizing: border-box;\<newline>'' @
     ustr ''            margin: 0;\<newline>'' @
     ustr ''            padding: 0;\<newline>'' @
     ustr ''        }\<newline>'' @
     ustr ''        body {\<newline>'' @
     ustr ''            font-family: -apple-system, BlinkMacSystemFont, "Segoe UI", Roboto, Helvetica, Arial, sans-serif;\<newline>'' @
     ustr ''            background-color: #f0f2f5;\<newline>'' @
     ustr ''            padding: 20px;\<newline>'' @
     ustr ''            color: #1c1e21;\<newline>'' @
     ustr ''        }\<newline>'' @
     ustr ''        .container {\<newline>'' @
     ustr ''            max-width: 680px;\<newline>'' @
     ustr ''            margin: 0 auto;\<newline>'' @
     ustr ''        }\<newline>'' @
     ustr ''        h1 {\<newline>'' @
     ustr ''            text-align: center;\<newline>'' @
     ustr ''            margin-bottom: 20px;\<newline>'' @
     ustr ''            color: #1877f2;\<newline>'' @
     ustr ''        }\<newline>'' @
     ustr ''        .stats {\<newline>'' @
     ustr ''            text-align: center;\<newline>'' @
     ustr ''            margin-bottom: 20px;\<newline>'' @
     ustr ''            color: #65676b;\<newline>'' @
     ustr ''        }\<newline>'' @
     ustr ''        .post {\<newline>'' @
     ustr ''            background: white;\<newline>'' @
     ustr ''            border-radius: 8px;\<newline>'' @
     ustr ''            box-shadow: 0 1px 2px rgba(0,0,0,0.1);\<newline>'' @
     ustr ''            margin-bottom: 15px;\<newline>'' @
     ustr ''            padding: 15px;\<newline>'' @
     ustr ''        }\<newline>'' @
     ustr ''        .post-header {\<newline>'' @
     ustr ''            margin-bottom: 10px;\<newline>'' @
     ustr ''        }\<newline>'' @
     ustr ''        .date {\<newline>'' @
     ustr ''            color: #65676b;\<newline>'' @
     ustr ''            font-size: 0.9em;\<newline>'' @
     ustr ''        }\<newline>'' @
     ustr ''        .title {\<newline>'' @
     ustr ''            color: #65676b;\<newline>'' @
     ustr ''            font-size: 0.85em;\<newline>'' @
     ustr ''            margin-bottom: 8px;\<newline>'' @
     ustr ''        }\<newline>'' @
     ustr ''        .post-text {\<newline>'' @
     ustr ''            font-size: 15px;\<newline>'' @
     ustr ''            line-height: 1.5;\<newline>'' @
     ustr ''            margin-bottom: 10px;\<newline>'' @
     ustr ''            white-space: pre-wrap;\<newline>'' @
     ustr ''            word-wrap: break-word;\<newline>'' @
     ustr ''        }\<newline>'' @
     ustr ''        .photos {\<newline>'' @
     ustr ''            display: flex;\<newline>'' @
     ustr ''            flex-wrap: wrap;\<newline>'' @
     ustr ''            gap: 8px;\<newline>'' @
     ustr ''            margin-top: 10px;\<newline>'' @
     ustr ''        }\<newline>'' @
     ustr ''        .post-photo {\<newline>'' @
     ustr ''            max-width: 100%;\<newline>'' @
     ustr ''            max-height: 500px;\<newline>'' @
     ustr ''            border-radius: 8px;\<newline>'' @
     ustr ''            object-fit: contain;\<newline>'' @
     ustr ''            cursor: pointer;\<newline>'' @
     ustr ''        }\<newline>'' @
     ustr ''        .tags {\<newline>'' @
     ustr ''            margin-top: 10px;\<newline>'' @
     ustr ''            color: #1877f2;\<newline>'' @
     ustr ''            font-size: 0.9em;\<newline>'' @
     ustr ''        }\<newline>'' @
     ustr ''        .external-link {\<newline>'' @
     ustr ''            display: inline-block;\<newline>'' @
     ustr ''            margin-top: 10px;\<newline>'' @
     ustr ''            color: #1877f2;\<newline>'' @
     ustr ''            text-decoration: none;\<newline>'' @
     ustr ''        }\<newline>'' @
     ustr ''        .external-link:hover {\<newline>'' @
     ustr ''            text-decoration: underline;\<newline>'' @
     ustr ''        }\<newline>'' @
     ustr ''    </style>\<newline>'' @
     ustr ''</head>\<newline>'' @
     ustr ''<body>\<newline>'' @
     ustr ''    <div class="container">\<newline>'' @
     ustr ''        <h1>Arch'' @
     [0xED] @
     ustr ''v Facebook pr'' @
     [0xED] @
     ustr ''spevkov</h1>\<newline>'' @
     ustr ''        <p class="stats">Celkom pr'' @
     [0xED] @
     ustr ''spevkov: ''\<close>

definition page_mid :: pystr where
  \<open>page_mid =
     ustr ''</p>\<newline>'' @
     ustr ''        ''\<close>

definition page_tail :: pystr where
  \<open>page_tail =
     ustr ''\<newline>'' @
     ustr ''    </div>\<newline>'' @
     ustr ''</body>\<newline>'' @
     ustr ''</html>\<newline>''\<close>

text \<open>
  What \<^verbatim>\<open>generate_html\<close> writes to \<^verbatim>\<open>index.html\<close>.
\<close>

definition generate_html ::
  "(pystr \<Rightarrow> pystr option) \<Rightarrow> FacebookPost list \<Rightarrow> py_error + pystr" where
  "generate_html fs posts =
     sbind (map_raise (render_post fs) posts) (\<lambda>html_items.
       Inr (page_head @ str_of_nat (length posts) @ page_mid @ concat html_items @ page_tail))"

section \<open>Notions used in the statements\<close>

text \<open>The key under which a post is deduplicated: its timestamp up to Python equality.\<close>

definition post_key :: "FacebookPost \<Rightarrow> json" where
  "post_key p = hash_key (timestamp p)"

text \<open>The invariant of the loader: the seen set holds exactly the keys of the accepted posts, each once.\<close>

definition keyed :: "FacebookPost list \<times> json set \<Rightarrow> bool" where
  "keyed st = (snd st = post_key ` set (fst st) \<and> distinct (map post_key (fst st)))"

text \<open>The loader state without the printed lines.\<close>

definition posts_seen :: "FacebookPost list \<times> json set \<times> pystr list \<Rightarrow> FacebookPost list \<times> json set" where
  "posts_seen st = (fst st, fst (snd st))"

text \<open>The key under which the extractor deduplicates a record, when reading it does not raise.\<close>

definition record_key :: "json \<Rightarrow> json option" where
  "record_key item =
     (case py_get item (ustr ''timestamp'') (JInt 0) of
        Inr ts \<Rightarrow> if hashable ts then Some (hash_key ts) else None
      | Inl e \<Rightarrow> None)"

text \<open>The invariant of the extractor: every post has its key in the seen set, each key once.\<close>

definition extract_inv :: "json set \<times> FacebookPost list \<Rightarrow> bool" where
  "extract_inv st = (post_key ` set (snd st) \<subseteq> fst st \<and> distinct (map post_key (snd st)))"

text \<open>The retention filter, read off a post.\<close>

definition has_content :: "FacebookPost \<Rightarrow> bool" where
  "has_content p = (py_truthy (post_text p) \<or> photo_paths p \<noteq> [])"

text \<open>An attachment entry that does not write the external URL: its \<^verbatim>\<open>external_context\<close> is absent or false.\<close>

definition without_context :: "json \<Rightarrow> bool" where
  "without_context e =
     (case py_get e (ustr ''external_context'') JNull of
        Inr c \<Rightarrow> \<not> py_truthy c
      | Inl x \<Rightarrow> False)"

text \<open>
  The posts a file hands to the loader: those the extractor returns for its document,
  none when the file is not parsed.
\<close>

definition file_posts :: "runtime \<Rightarrow> json_file \<Rightarrow> FacebookPost list" where
  "file_posts rt file =
     (case snd file of
        Inr data \<Rightarrow> (case extract_posts_from_json rt data of Inr ps \<Rightarrow> ps | Inl e \<Rightarrow> [])
      | Inl e \<Rightarrow> [])"

text \<open>Encounter order with first occurrence winning: a post is kept unless its key was seen.\<close>

fun first_by_key :: "json set \<Rightarrow> FacebookPost list \<Rightarrow> FacebookPost list" where
  "first_by_key seen [] = []"
| "first_by_key seen (p # ps) =
     (if post_key p \<in> seen then first_by_key seen ps
      else p # first_by_key (insert (post_key p) seen) ps)"

text \<open>
  What a batch offers for a key: the post of its first record with that key, when that
  record passes the retention filter.
\<close>

definition batch_offer :: "runtime \<Rightarrow> json \<Rightarrow> json list \<Rightarrow> FacebookPost list" where
  "batch_offer rt k items =
     (case find (\<lambda>item. record_key item = Some k) items of
        None \<Rightarrow> []
      | Some r \<Rightarrow>
          (case py_get r (ustr ''timestamp'') (JInt 0) of
             Inr ts \<Rightarrow> (case build_post rt ts r of Inr (Some p) \<Rightarrow> [p] | _ \<Rightarrow> [])
           | Inl e \<Rightarrow> []))"

text \<open>What a file offers for a key: the offer of its document, nothing when it is not parsed.\<close>

definition file_offer :: "runtime \<Rightarrow> json \<Rightarrow> json_file \<Rightarrow> FacebookPost list" where
  "file_offer rt k file =
     (case snd file of
        Inr data \<Rightarrow> (case py_iter data of Inr items \<Rightarrow> batch_offer rt k items | Inl e \<Rightarrow> [])
      | Inl e \<Rightarrow> [])"

text \<open>No \<^verbatim>\<open><\<close> of the text opens \<^verbatim>\<open><sc\<close>: each is followed by two characters other than \<^verbatim>\<open>sc\<close>.\<close>

fun tag_safe :: "pystr \<Rightarrow> bool" where
  "tag_safe [] = True"
| "tag_safe (c # cs) =
     ((if c = 0x3C then (case cs of c1 # c2 # r \<Rightarrow> (c1, c2) \<noteq> (0x73, 0x63) | _ \<Rightarrow> False) else True)
      \<and> tag_safe cs)"

text \<open>The entries of one attachment, as the inner loop meets them.\<close>

definition attachment_entries :: "json \<Rightarrow> py_error + json list" where
  "attachment_entries attachment =
     sbind (py_get attachment (ustr ''data'') (JList [])) py_iter"

text \<open>
  The attachment entries of a record in the order in which the two loops scan them:
  the entries of the first attachment, then those of the second, and so on.
\<close>

definition record_entries :: "json \<Rightarrow> py_error + json list" where
  "record_entries item =
     sbind (py_get item (ustr ''attachments'') (JList [])) (\<lambda>a.
     sbind (py_iter a) (\<lambda>attachments.
     sbind (map_raise attachment_entries attachments) (\<lambda>ess. Inr (concat ess))))"

section \<open>Example inputs\<close>

text \<open>
  A runtime for the examples (a fixed date string, ASCII lower case, the path itself as
  its name), a record with a text, a record with a title only, and the post the
  extractor builds from a record with a text.
\<close>

definition example_runtime :: runtime where
  "example_runtime =
     \<lparr>local_strftime = (\<lambda>t. Inr (ustr ''date'')),
      str_lower = map (\<lambda>c. if 65 \<le> c \<and> c \<le> 90 then c + 32 else c),
      path_name = (\<lambda>p. p)\<rparr>"

definition text_record :: "int \<Rightarrow> string \<Rightarrow> json" where
  "text_record t s =
     JObj [(ustr ''timestamp'', JInt t),
           (ustr ''data'', JList [JObj [(ustr ''post'', JStr (ustr s))]])]"

definition bare_record :: "int \<Rightarrow> json" where
  "bare_record t = JObj [(ustr ''timestamp'', JInt t), (ustr ''title'', JStr (ustr ''x''))]"

definition text_post :: "int \<Rightarrow> string \<Rightarrow> FacebookPost" where
  "text_post t s =
     \<lparr>timestamp = JInt t, post_text = JStr (ustr s), title = JStr [], photo_paths = [],
      photo_filenames = [], date_string = (if t = 0 then [] else ustr ''date''), tags = [],
      external_url = JStr []\<rparr>"

text \<open>Example attachment entries: one with an \<^verbatim>\<open>external_context\<close> of a single field.\<close>

definition context_entry :: "string \<Rightarrow> string \<Rightarrow> json" where
  "context_entry k v = JObj [(ustr ''external_context'', JObj [(ustr k, JStr (ustr v))])]"

text \<open>Example attachment entries: one with a \<^verbatim>\<open>media\<close> of the given \<^verbatim>\<open>uri\<close>.\<close>

definition media_entry :: "string \<Rightarrow> json" where
  "media_entry u = JObj [(ustr ''media'', JObj [(ustr ''uri'', JStr (ustr u))])]"

text \<open>Example post with a script in its text and markup characters in every field.\<close>

definition script_post :: FacebookPost where
  \<open>script_post =
     \<lparr>timestamp = JInt 10, post_text = JStr (ustr ''<script>alert(1)</script>''),
      title = JStr (ustr ''a & b''), photo_paths = [ustr ''m/<x>.png''],
      photo_filenames = [ustr ''<x>.png''], date_string = ustr ''date'',
      tags = [JStr (ustr ''t<1>''), JStr (ustr ''u'')],
      external_url = JStr (ustr ''http://x/?a="b"'')\<rparr>\<close>

text \<open>Example record: its attachments are the given lists of entries.\<close>

definition attachments_record :: "json list list \<Rightarrow> json" where
  "attachments_record ess =
     JObj [(ustr ''attachments'', JList (map (\<lambda>es. JObj [(ustr ''data'', JList es)]) ess))]"

section \<open>Properties of the text normaliser\<close>

lemma sbind_Inl [simp]: "sbind (Inl e) f = Inl e"
  by (simp add: sbind_def)

lemma sbind_Inr [simp]: "sbind (Inr v) f = f v"
  by (simp add: sbind_def)

lemma sbind_cong [fundef_cong]:
  "m = m' \<Longrightarrow> (\<And>v. m' = Inr v \<Longrightarrow> f v = f' v) \<Longrightarrow> sbind m f = sbind m' f'"
  by (cases m') (simp_all add: sbind_def)

lemma sbind_eq_Inr:
  "sbind m f = Inr r \<longleftrightarrow> (\<exists>v. m = Inr v \<and> f v = Inr r)"
  by (cases m) simp_all

text \<open>
  C8. \<open>fix_encoding\<close> returns a str for every str and never raises on one; the empty
  str is returned as it is; and whenever the repair is not valid for the input (the text
  has no latin-1 encoding, or the bytes are not UTF-8) the original text is returned.
\<close>

theorem fix_encoding_str_total:
  "(\<exists>t. fix_encoding (JStr s) = Inr (JStr t))
   \<and> fix_encoding (JStr []) = Inr (JStr [])
   \<and> (latin1_encode s = None \<or> (\<exists>bs. latin1_encode s = Some bs \<and> utf8_decode bs = None)
        \<longrightarrow> fix_encoding (JStr s) = Inr (JStr s))"
  by (auto simp: fix_encoding_def split: option.splits)

theorem fix_encoding_str_total_witness:
  "latin1_encode [0x141] = None
   \<and> fix_encoding (JStr [0x141]) = Inr (JStr [0x141])
   \<and> latin1_encode [0xE9] = Some [0xE9] \<and> utf8_decode [0xE9] = None
   \<and> fix_encoding (JStr [0xE9]) = Inr (JStr [0xE9])
   \<and> fix_encoding (JStr [0xC3, 0xA9]) = Inr (JStr [0xE9])
   \<and> fix_encoding (JStr []) = Inr (JStr [])"
  using fix_encoding_str_total [of "[0x141]"] fix_encoding_str_total [of "[0xE9]"]
  by (simp add: latin1_encode_def fix_encoding_def is_cont_def)

section \<open>Properties of the loops\<close>

lemma fold_raise_append:
  "fold_raise f s (xs @ ys) = sbind (fold_raise f s xs) (\<lambda>s'. fold_raise f s' ys)"
  by (induction xs arbitrary: s) (simp_all split: sum.splits)

lemma fold_raise_invariant:
  assumes "fold_raise f s xs = Inr s'" and "P s"
    and "\<And>s x t. P s \<Longrightarrow> f s x = Inr t \<Longrightarrow> P t"
  shows "P s'"
  using assms
proof (induction xs arbitrary: s)
  case Nil
  then show ?case by simp
next
  case (Cons x xs)
  from Cons.prems(1) obtain t where t: "f s x = Inr t" and r: "fold_raise f t xs = Inr s'"
    by (auto split: sum.splits)
  have "P t" using Cons.prems(3) [OF Cons.prems(2) t] .
  then show ?case using Cons.IH [OF r] Cons.prems(3) by blast
qed

lemma accept_posts_keyed: "keyed st \<Longrightarrow> keyed (accept_posts st ps)"
proof (induction ps arbitrary: st)
  case Nil
  then show ?case by simp
next
  case (Cons p ps)
  show ?case
  proof (cases "hash_key (timestamp p) \<in> snd st")
    case True
    then show ?thesis using Cons by simp
  next
    case False
    have "keyed (fst st @ [p], insert (hash_key (timestamp p)) (snd st))"
      using Cons.prems False by (auto simp: keyed_def post_key_def)
    then show ?thesis using Cons.IH False by simp
  qed
qed

lemma load_file_keyed:
  assumes "load_file rt st file = Inr st'" and "keyed (fst st, fst (snd st))"
  shows "keyed (fst st', fst (snd st'))"
proof (cases "snd file")
  case (Inl e)
  then show ?thesis using assms by (cases e) (auto simp: load_file_def Let_def)
next
  case (Inr data)
  then obtain posts where "extract_posts_from_json rt data = Inr posts"
    and "st' = (fst (accept_posts (fst st, fst (snd st)) posts),
                snd (accept_posts (fst st, fst (snd st)) posts), snd (snd st) @ [ustr ''Processing: '' @ fst file])"
    using assms(1) by (auto simp: load_file_def Let_def sbind_eq_Inr)
  then show ?thesis using accept_posts_keyed [OF assms(2), of posts] by simp
qed

lemma load_loop_keyed:
  assumes "load_loop rt files = Inr st"
  shows "keyed (fst st, fst (snd st))"
proof (rule fold_raise_invariant [where P = "\<lambda>st. keyed (fst st, fst (snd st))"])
  show "fold_raise (load_file rt) ([], {}, []) files = Inr st"
    using assms by (simp add: load_loop_def)
  show "keyed (fst ([], {}, []), fst (snd ([], {}, [])))"
    by (simp add: keyed_def)
  show "\<And>s x t. keyed (fst s, fst (snd s)) \<Longrightarrow> load_file rt s x = Inr t
          \<Longrightarrow> keyed (fst t, fst (snd t))"
    by (rule load_file_keyed)
qed

lemma sort_posts_mset: "sort_posts ps = Inr qs \<Longrightarrow> mset qs = mset ps"
  by (auto simp: sort_posts_def split: if_splits)

lemma distinct_map_mset: "mset qs = mset ps \<Longrightarrow> distinct (map f qs) = distinct (map f ps)"
  by (metis mset_eq_imp_distinct_iff mset_map)

lemma distinct_map_comp: "distinct (map (\<lambda>x. f (g x)) xs) \<Longrightarrow> distinct (map g xs)"
  by (induction xs) auto

text \<open>
  C4. In the collection returned by \<open>load_and_merge_posts\<close>, whatever the parsed
  documents, the timestamps are pairwise distinct, also up to Python equality
  (\<^verbatim>\<open>True == 1\<close>).
\<close>

theorem final_timestamps_distinct:
  assumes "load_and_merge_posts rt files = Inr (qs, out)"
  shows "distinct (map (\<lambda>p. hash_key (timestamp p)) qs) \<and> distinct (map timestamp qs)"
proof -
  from assms obtain st where st: "load_loop rt files = Inr st" and s: "sort_posts (fst st) = Inr qs"
    by (auto simp: load_and_merge_posts_def sbind_eq_Inr)
  have "distinct (map post_key (fst st))" using load_loop_keyed [OF st] by (simp add: keyed_def)
  then have "distinct (map post_key qs)"
    using distinct_map_mset [OF sort_posts_mset [OF s], of post_key] by simp
  then have d: "distinct (map (\<lambda>p. hash_key (timestamp p)) qs)" by (simp add: post_key_def [abs_def])
  show ?thesis using d distinct_map_comp [of hash_key timestamp qs] by simp
qed

theorem final_timestamps_distinct_witness:
  "load_and_merge_posts example_runtime
     [(ustr ''A'', Inr (JList [text_record 10 ''hi''])),
      (ustr ''B'', Inr (JList [text_record 10 ''dup'', text_record 20 ''bye'']))]
     = Inr ([text_post 20 ''bye'', text_post 10 ''hi''],
            [ustr ''Processing: A'', ustr ''Processing: B''])
   \<and> distinct (map (\<lambda>p. hash_key (timestamp p)) [text_post 20 ''bye'', text_post 10 ''hi''])
   \<and> distinct (map timestamp [text_post 20 ''bye'', text_post 10 ''hi''])"
proof -
  have e: "load_and_merge_posts example_runtime
     [(ustr ''A'', Inr (JList [text_record 10 ''hi''])),
      (ustr ''B'', Inr (JList [text_record 10 ''dup'', text_record 20 ''bye'']))]
     = Inr ([text_post 20 ''bye'', text_post 10 ''hi''],
            [ustr ''Processing: A'', ustr ''Processing: B''])"
    by code_simp
  from final_timestamps_distinct [OF e] e show ?thesis by simp
qed

lemma sorted_wrt_short: "length xs \<le> 1 \<Longrightarrow> sorted_wrt R xs"
  by (cases xs) (auto simp: le_Suc_eq)

lemma sort_posts_sorted:
  assumes "sort_posts ps = Inr qs"
  shows "sorted_wrt (\<lambda>p q. number_of (timestamp q) \<le> number_of (timestamp p)) qs"
proof (cases "length ps \<le> 1")
  case True
  then show ?thesis using assms by (simp add: sort_posts_def sorted_wrt_short)
next
  case False
  then have qs: "qs = sort_key (\<lambda>p. - number_of (timestamp p)) ps"
    using assms by (simp add: sort_posts_def split: if_splits)
  have "sorted (map (\<lambda>p. - number_of (timestamp p)) qs)"
    unfolding qs by (rule sorted_sort_key)
  then show ?thesis by (simp add: sorted_wrt_map)
qed

lemma sort_posts_stable:
  assumes "sort_posts ps = Inr qs"
  shows "filter (\<lambda>p. number_of (timestamp p) = k) qs = filter (\<lambda>p. number_of (timestamp p) = k) ps"
proof (cases "length ps \<le> 1")
  case True
  then show ?thesis using assms by (simp add: sort_posts_def)
next
  case False
  then have qs: "qs = sort_key (\<lambda>p. - number_of (timestamp p)) ps"
    using assms by (simp add: sort_posts_def split: if_splits)
  show ?thesis
    unfolding qs using sort_key_stable [of "\<lambda>p. - number_of (timestamp p)" "- k" ps] by simp
qed

lemma load_and_merge_split:
  "load_and_merge_posts rt files = Inr (qs, out) \<longleftrightarrow>
     (\<exists>ps seen. load_loop rt files = Inr (ps, seen, out) \<and> sort_posts ps = Inr qs)"
  by (auto simp: load_and_merge_posts_def sbind_eq_Inr)

text \<open>
  C3. The collection returned by \<open>load_and_merge_posts\<close> is in descending order of
  timestamp; the sort that produces it permutes its input and is stable: posts with
  equal timestamps keep their relative order.
\<close>

theorem final_collection_sorted_stable:
  "(load_and_merge_posts rt files = Inr (rs, out) \<longrightarrow>
      sorted_wrt (\<lambda>p q. number_of (timestamp q) \<le> number_of (timestamp p)) rs)
   \<and> (sort_posts ps = Inr qs \<longrightarrow>
      sorted_wrt (\<lambda>p q. number_of (timestamp q) \<le> number_of (timestamp p)) qs
      \<and> mset qs = mset ps
      \<and> (\<forall>k. filter (\<lambda>p. number_of (timestamp p) = k) qs
               = filter (\<lambda>p. number_of (timestamp p) = k) ps))"
  using sort_posts_sorted sort_posts_stable sort_posts_mset
  by (auto simp: load_and_merge_split)

theorem final_collection_sorted_stable_witness:
  "load_and_merge_posts example_runtime
     [(ustr ''A'', Inr (JList [text_record 100 ''a''])),
      (ustr ''B'', Inr (JList [text_record 300 ''b''])),
      (ustr ''C'', Inr (JList [text_record 200 ''c'']))]
     = Inr ([text_post 300 ''b'', text_post 200 ''c'', text_post 100 ''a''],
            [ustr ''Processing: A'', ustr ''Processing: B'', ustr ''Processing: C''])
   \<and> sorted_wrt (\<lambda>p q. number_of (timestamp q) \<le> number_of (timestamp p))
        [text_post 300 ''b'', text_post 200 ''c'', text_post 100 ''a'']
   \<and> sort_posts [text_post 100 ''a'', text_post 300 ''b'', text_post 100 ''c'']
        = Inr [text_post 300 ''b'', text_post 100 ''a'', text_post 100 ''c'']
   \<and> filter (\<lambda>p. number_of (timestamp p) = 100)
        [text_post 300 ''b'', text_post 100 ''a'', text_post 100 ''c'']
        = filter (\<lambda>p. number_of (timestamp p) = 100)
            [text_post 100 ''a'', text_post 300 ''b'', text_post 100 ''c'']"
proof -
  have e1: "load_and_merge_posts example_runtime
     [(ustr ''A'', Inr (JList [text_record 100 ''a''])),
      (ustr ''B'', Inr (JList [text_record 300 ''b''])),
      (ustr ''C'', Inr (JList [text_record 200 ''c'']))]
     = Inr ([text_post 300 ''b'', text_post 200 ''c'', text_post 100 ''a''],
            [ustr ''Processing: A'', ustr ''Processing: B'', ustr ''Processing: C''])"
    by code_simp
  have e2: "sort_posts [text_post 100 ''a'', text_post 300 ''b'', text_post 100 ''c'']
        = Inr [text_post 300 ''b'', text_post 100 ''a'', text_post 100 ''c'']"
    by code_simp
  from final_collection_sorted_stable [of example_runtime _ _ _
      "[text_post 100 ''a'', text_post 300 ''b'', text_post 100 ''c'']"
      "[text_post 300 ''b'', text_post 100 ''a'', text_post 100 ''c'']"] e1 e2
  show ?thesis by blast
qed

lemma load_file_out_independent:
  "map_sum id posts_seen (load_file rt (a, s, o1) f) = map_sum id posts_seen (load_file rt (a, s, o2) f)"
proof (cases "snd f")
  case (Inl e)
  then show ?thesis by (cases e) (simp_all add: load_file_def posts_seen_def)
next
  case (Inr data)
  then show ?thesis
    by (cases "extract_posts_from_json rt data") (simp_all add: load_file_def posts_seen_def)
qed

lemma fold_load_out_independent:
  "map_sum id posts_seen (fold_raise (load_file rt) (a, s, o1) fs)
   = map_sum id posts_seen (fold_raise (load_file rt) (a, s, o2) fs)"
proof (induction fs arbitrary: a s o1 o2)
  case Nil
  then show ?case by (simp add: posts_seen_def)
next
  case (Cons f fs)
  show ?case
  proof (cases "load_file rt (a, s, o1) f")
    case (Inl e)
    then show ?thesis using load_file_out_independent [of rt a s o1 f o2]
      by (cases "load_file rt (a, s, o2) f") simp_all
  next
    case (Inr t)
    then obtain t' where t': "load_file rt (a, s, o2) f = Inr t'" and eq: "posts_seen t = posts_seen t'"
      using load_file_out_independent [of rt a s o1 f o2]
      by (cases "load_file rt (a, s, o2) f") simp_all
    obtain a1 s1 p1 where t1: "t = (a1, s1, p1)" by (cases t)
    obtain p2 where t2: "t' = (a1, s1, p2)" using eq t1 by (cases t') (simp add: posts_seen_def)
    show ?thesis using Inr t' t1 t2 Cons.IH [of a1 s1 p1 p2] by simp
  qed
qed

lemma load_file_malformed:
  "load_file rt (a, s, out) (path, Inl (JSONDecodeError msg))
   = Inr (a, s, out @ [ustr ''Processing: '' @ path,
                        ustr ''Error reading '' @ path @ ustr '': '' @ msg])"
  by (simp add: load_file_def)

lemma load_file_out_grows:
  "load_file rt st f = Inr st' \<Longrightarrow> set (snd (snd st)) \<subseteq> set (snd (snd st'))"
  by (cases "snd f") (auto simp: load_file_def Let_def sbind_eq_Inr split: py_error.splits)

lemma fold_load_out_grows:
  assumes "fold_raise (load_file rt) st fs = Inr st'"
  shows "set (snd (snd st)) \<subseteq> set (snd (snd st'))"
  by (rule fold_raise_invariant [OF assms, where P = "\<lambda>t. set (snd (snd st)) \<subseteq> set (snd (snd t))"])
     (use load_file_out_grows in blast)+

lemma sort_after_posts_seen:
  "map_sum id posts_seen r1 = map_sum id posts_seen r2 \<Longrightarrow>
   map_sum id fst (sbind r1 (\<lambda>st. sbind (sort_posts (fst st)) (\<lambda>sorted. Inr (sorted, snd (snd st)))))
   = map_sum id fst (sbind r2 (\<lambda>st. sbind (sort_posts (fst st)) (\<lambda>sorted. Inr (sorted, snd (snd st)))))"
  by (cases r1; cases r2) (auto simp: posts_seen_def sbind_def split: sum.splits)

text \<open>
  C9. A file that fails to parse as JSON is reported and skipped: the run gives the posts
  (or the exception) that the run without that file gives, and the line naming the file
  and the parse error is printed.
\<close>

theorem malformed_file_skipped:
  "map_sum id fst (load_and_merge_posts rt (pre @ (path, Inl (JSONDecodeError msg)) # suf))
     = map_sum id fst (load_and_merge_posts rt (pre @ suf))
   \<and> (load_and_merge_posts rt (pre @ (path, Inl (JSONDecodeError msg)) # suf) = Inr (qs, out)
        \<longrightarrow> ustr ''Error reading '' @ path @ ustr '': '' @ msg \<in> set out)"
proof
  let ?bad = "(path, Inl (JSONDecodeError msg))"
  have loop: "map_sum id posts_seen (load_loop rt (pre @ ?bad # suf))
              = map_sum id posts_seen (load_loop rt (pre @ suf))"
  proof (cases "fold_raise (load_file rt) ([], {}, []) pre")
    case (Inl e)
    then show ?thesis by (simp add: load_loop_def fold_raise_append)
  next
    case (Inr t)
    obtain a s p where t: "t = (a, s, p)" by (cases t)
    show ?thesis using Inr t
      fold_load_out_independent [of rt a s "p @ [ustr ''Processing: '' @ path,
                        ustr ''Error reading '' @ path @ ustr '': '' @ msg]" suf p]
      by (simp add: load_loop_def fold_raise_append load_file_malformed)
  qed
  show "map_sum id fst (load_and_merge_posts rt (pre @ ?bad # suf))
     = map_sum id fst (load_and_merge_posts rt (pre @ suf))"
    unfolding load_and_merge_posts_def by (rule sort_after_posts_seen [OF loop])
  show "load_and_merge_posts rt (pre @ ?bad # suf) = Inr (qs, out)
        \<longrightarrow> ustr ''Error reading '' @ path @ ustr '': '' @ msg \<in> set out"
  proof
    assume "load_and_merge_posts rt (pre @ ?bad # suf) = Inr (qs, out)"
    then obtain ps seen where l: "load_loop rt (pre @ ?bad # suf) = Inr (ps, seen, out)"
      by (auto simp: load_and_merge_split)
    then obtain t where t: "fold_raise (load_file rt) ([], {}, []) pre = Inr t"
      and r: "fold_raise (load_file rt) t (?bad # suf) = Inr (ps, seen, out)"
      by (auto simp: load_loop_def fold_raise_append sbind_eq_Inr)
    obtain a s p where tt: "t = (a, s, p)" by (cases t)
    have "fold_raise (load_file rt) (a, s, p @ [ustr ''Processing: '' @ path,
                        ustr ''Error reading '' @ path @ ustr '': '' @ msg]) suf = Inr (ps, seen, out)"
      using r tt by (simp add: load_file_malformed)
    from fold_load_out_grows [OF this] show "ustr ''Error reading '' @ path @ ustr '': '' @ msg \<in> set out"
      by simp
  qed
qed

theorem malformed_file_skipped_witness:
  "map_sum id fst (load_and_merge_posts example_runtime
     [(ustr ''A'', Inl (JSONDecodeError (ustr ''bad''))),
      (ustr ''B'', Inr (JList [text_record 10 ''hi'']))])
     = map_sum id fst (load_and_merge_posts example_runtime
         [(ustr ''B'', Inr (JList [text_record 10 ''hi'']))])
   \<and> load_and_merge_posts example_runtime
     [(ustr ''A'', Inl (JSONDecodeError (ustr ''bad''))),
      (ustr ''B'', Inr (JList [text_record 10 ''hi'']))]
     = Inr ([text_post 10 ''hi''],
            [ustr ''Processing: A'', ustr ''Error reading A: bad'', ustr ''Processing: B''])
   \<and> ustr ''Error reading '' @ ustr ''A'' @ ustr '': '' @ ustr ''bad''
        \<in> set [ustr ''Processing: A'', ustr ''Error reading A: bad'', ustr ''Processing: B'']"
proof -
  have e: "load_and_merge_posts example_runtime
     [(ustr ''A'', Inl (JSONDecodeError (ustr ''bad''))),
      (ustr ''B'', Inr (JList [text_record 10 ''hi'']))]
     = Inr ([text_post 10 ''hi''],
            [ustr ''Processing: A'', ustr ''Error reading A: bad'', ustr ''Processing: B''])"
    by code_simp
  from malformed_file_skipped [of example_runtime "[]" "ustr ''A''" "ustr ''bad''"
      "[(ustr ''B'', Inr (JList [text_record 10 ''hi'']))]" "[text_post 10 ''hi'']"
      "[ustr ''Processing: A'', ustr ''Error reading A: bad'', ustr ''Processing: B'']"] e
  show ?thesis by simp
qed

lemma new_post_fields:
  "new_post rt ts text ttl paths names tgs url = Inr p \<Longrightarrow>
   timestamp p = ts \<and> post_text p = text \<and> title p = ttl \<and> photo_paths p = paths
   \<and> photo_filenames p = names \<and> tags p = tgs \<and> external_url p = url"
  by (auto simp: new_post_def sbind_eq_Inr)

lemma build_post_Some:
  assumes "build_post rt ts item = Inr (Some p)"
  shows "timestamp p = ts \<and> item_text item = Inr (post_text p)
         \<and> item_attachments rt item = Inr (photo_paths p, external_url p)
         \<and> (py_truthy (post_text p) \<or> photo_paths p \<noteq> [])"
proof -
  from assms obtain tx ttl tgs att q where
    t: "item_text item = Inr tx" and a: "item_attachments rt item = Inr att"
    and c: "py_truthy tx \<or> fst att \<noteq> []"
    and n: "new_post rt ts tx ttl (fst att) (map (path_name rt) (fst att)) tgs (snd att) = Inr q"
    and q: "Some q = Some p"
    by (auto simp: build_post_def sbind_eq_Inr split: if_splits)
  from new_post_fields [OF n] q t a c show ?thesis by auto
qed

lemma build_post_empty:
  assumes "item_text item = Inr (JStr [])" and "item_attachments rt item = Inr ([], url)"
  shows "build_post rt ts item \<noteq> Inr (Some p)"
proof
  assume "build_post rt ts item = Inr (Some p)"
  from build_post_Some [OF this] assms
  have "post_text p = JStr []" and "photo_paths p = []"
    and "py_truthy (post_text p) \<or> photo_paths p \<noteq> []" by auto
  then show False by simp
qed

lemma extract_step_Inr:
  "extract_step rt st item = Inr st' \<longleftrightarrow>
     (\<exists>ts. py_get item (ustr ''timestamp'') (JInt 0) = Inr ts \<and> hashable ts
        \<and> (if hash_key ts \<in> fst st then st' = st
            else \<exists>r. build_post rt ts item = Inr r
                   \<and> st' = (insert (hash_key ts) (fst st),
                             (case r of None \<Rightarrow> snd st | Some p \<Rightarrow> snd st @ [p]))))"
proof (cases "py_get item (ustr ''timestamp'') (JInt 0)")
  case (Inl e)
  then show ?thesis by (simp add: extract_step_def)
next
  case (Inr ts)
  show ?thesis
  proof (cases "hashable ts \<and> hash_key ts \<notin> fst st")
    case True
    then show ?thesis using Inr
      by (cases "build_post rt ts item") (auto simp: extract_step_def)
  next
    case False
    then show ?thesis using Inr by (auto simp: extract_step_def)
  qed
qed

lemma extract_step_cases:
  assumes "extract_step rt st item = Inr st'"
  obtains ts where "py_get item (ustr ''timestamp'') (JInt 0) = Inr ts" "hashable ts"
      "hash_key ts \<in> fst st" "st' = st"
  | ts r where "py_get item (ustr ''timestamp'') (JInt 0) = Inr ts" "hashable ts"
      "hash_key ts \<notin> fst st" "build_post rt ts item = Inr r"
      "st' = (insert (hash_key ts) (fst st), (case r of None \<Rightarrow> snd st | Some p \<Rightarrow> snd st @ [p]))"
proof -
  from assms obtain ts where 1: "py_get item (ustr ''timestamp'') (JInt 0) = Inr ts" "hashable ts"
    and 2: "if hash_key ts \<in> fst st then st' = st
            else \<exists>r. build_post rt ts item = Inr r
                   \<and> st' = (insert (hash_key ts) (fst st),
                             (case r of None \<Rightarrow> snd st | Some p \<Rightarrow> snd st @ [p]))"
    unfolding extract_step_Inr by blast
  show thesis
  proof (cases "hash_key ts \<in> fst st")
    case True
    then show ?thesis using 1 2 that(1) by simp
  next
    case False
    then show ?thesis using 1 2 that(2) by auto
  qed
qed

lemma extract_step_seen:
  assumes "extract_step rt st item = Inr st'"
  shows "fst st \<subseteq> fst st' \<and> (\<exists>k. record_key item = Some k \<and> k \<in> fst st')"
  using assms by (rule extract_step_cases) (auto simp: record_key_def)

lemma extract_fold_seen:
  assumes "fold_raise (extract_step rt) st items = Inr st'"
  shows "fst st \<subseteq> fst st'"
  by (rule fold_raise_invariant [OF assms, where P = "\<lambda>t. fst st \<subseteq> fst t"])
     (use extract_step_seen in blast)+

lemma extract_step_duplicate:
  assumes "record_key item = Some k" and "k \<in> fst st"
  shows "extract_step rt st item = Inr st"
  using assms by (auto simp: extract_step_def record_key_def split: sum.splits if_splits)

lemma extract_fold_drops_duplicate:
  assumes "record_key r1 = Some k" and "record_key r2 = Some k"
  shows "fold_raise (extract_step rt) st (pre @ r1 # mid @ r2 # suf)
         = fold_raise (extract_step rt) st (pre @ r1 # mid @ suf)"
proof (cases "fold_raise (extract_step rt) st (pre @ [r1])")
  case (Inl e)
  have "fold_raise (extract_step rt) st ((pre @ [r1]) @ xs) = Inl e" for xs
    unfolding fold_raise_append [of _ _ "pre @ [r1]"] using Inl by simp
  from this [of "mid @ r2 # suf"] this [of "mid @ suf"] show ?thesis by simp
next
  case (Inr t)
  then have "sbind (fold_raise (extract_step rt) st pre) (\<lambda>s'. fold_raise (extract_step rt) s' [r1]) = Inr t"
    by (simp only: fold_raise_append)
  then obtain t0 where "fold_raise (extract_step rt) st pre = Inr t0"
    and s1: "fold_raise (extract_step rt) t0 [r1] = Inr t"
    unfolding sbind_eq_Inr by blast
  have s: "extract_step rt t0 r1 = Inr t"
    using s1 by (cases "extract_step rt t0 r1") simp_all
  have kt: "k \<in> fst t" using extract_step_seen [OF s] assms(1) by auto
  have eq: "fold_raise (extract_step rt) st ((pre @ [r1]) @ xs) = fold_raise (extract_step rt) t xs" for xs
    unfolding fold_raise_append [of _ _ "pre @ [r1]"] using Inr by simp
  have "fold_raise (extract_step rt) t (mid @ r2 # suf) = fold_raise (extract_step rt) t (mid @ suf)"
  proof (cases "fold_raise (extract_step rt) t mid")
    case (Inl e)
    then show ?thesis by (simp add: fold_raise_append)
  next
    case (Inr u)
    have "k \<in> fst u" using extract_fold_seen [OF Inr] kt by auto
    then have "extract_step rt u r2 = Inr u" using extract_step_duplicate [OF assms(2)] by simp
    then show ?thesis using Inr by (simp add: fold_raise_append)
  qed
  then show ?thesis using eq [of "mid @ r2 # suf"] eq [of "mid @ suf"] by simp
qed

lemma extract_step_inv:
  assumes "extract_step rt st item = Inr st'" and "extract_inv st"
  shows "extract_inv st'"
  using assms(1)
proof (rule extract_step_cases)
  fix ts assume "st' = st"
  then show ?thesis using assms(2) by simp
next
  fix ts r
  assume ts: "hash_key ts \<notin> fst st" and b: "build_post rt ts item = Inr r"
    and st': "st' = (insert (hash_key ts) (fst st), (case r of None \<Rightarrow> snd st | Some p \<Rightarrow> snd st @ [p]))"
  show ?thesis
  proof (cases r)
    case None
    then show ?thesis using st' assms(2) by (auto simp: extract_inv_def)
  next
    case (Some p)
    then have "post_key p = hash_key ts" using build_post_Some [of rt ts item p] b by (simp add: post_key_def)
    then show ?thesis using st' Some ts assms(2) by (auto simp: extract_inv_def)
  qed
qed

lemma extract_posts_distinct:
  assumes "extract_posts_from_json rt data = Inr posts"
  shows "distinct (map post_key posts)"
proof -
  from assms obtain items st where f: "fold_raise (extract_step rt) ({}, []) items = Inr st"
    and p: "posts = snd st"
    by (auto simp: extract_posts_from_json_def sbind_eq_Inr)
  have "extract_inv st"
  proof (rule fold_raise_invariant [OF f, where P = extract_inv])
    show "extract_inv ({}, [])" by (simp add: extract_inv_def)
    show "\<And>s x t. extract_inv s \<Longrightarrow> extract_step rt s x = Inr t \<Longrightarrow> extract_inv t"
      using extract_step_inv by blast
  qed
  then show ?thesis using p by (simp add: extract_inv_def)
qed

lemma distinct_filter_le1: "distinct (map f xs) \<Longrightarrow> length (filter (\<lambda>x. f x = k) xs) \<le> 1"
proof (induction xs)
  case Nil
  then show ?case by simp
next
  case (Cons a xs)
  show ?case
  proof (cases "f a = k")
    case True
    have "f a \<notin> f ` set xs" using Cons.prems by simp
    then have "\<forall>x\<in>set xs. f x \<noteq> k" using True by blast
    then have "filter (\<lambda>x. f x = k) xs = []" by (simp add: filter_empty_conv)
    then show ?thesis using True by simp
  next
    case False
    then show ?thesis using Cons by simp
  qed
qed

text \<open>
  C10. A record without a timestamp field gets the key 0; a later record without one is
  dropped as a duplicate whatever its content, and a batch yields at most one post with
  timestamp 0.
\<close>

theorem missing_timestamp_key_zero:
  assumes "map_of kvs1 (ustr ''timestamp'') = None" and "map_of kvs2 (ustr ''timestamp'') = None"
  shows "py_get (JObj kvs1) (ustr ''timestamp'') (JInt 0) = Inr (JInt 0)
     \<and> extract_posts_from_json rt (JList (pre @ JObj kvs1 # mid @ JObj kvs2 # suf))
         = extract_posts_from_json rt (JList (pre @ JObj kvs1 # mid @ suf))
     \<and> (extract_posts_from_json rt data = Inr posts \<longrightarrow>
          length (filter (\<lambda>p. hash_key (timestamp p) = JInt 0) posts) \<le> 1)"
proof -
  have k1: "record_key (JObj kvs1) = Some (JInt 0)" using assms(1) by (simp add: record_key_def)
  have k2: "record_key (JObj kvs2) = Some (JInt 0)" using assms(2) by (simp add: record_key_def)
  have "extract_posts_from_json rt data = Inr posts \<Longrightarrow>
          length (filter (\<lambda>p. hash_key (timestamp p) = JInt 0) posts) \<le> 1"
    using distinct_filter_le1 [OF extract_posts_distinct, of rt data posts "JInt 0"]
    by (simp add: post_key_def)
  then show ?thesis
    using assms(1) extract_fold_drops_duplicate [OF k1 k2, of rt]
    by (simp add: extract_posts_from_json_def)
qed

theorem missing_timestamp_key_zero_witness:
  "map_of [(ustr ''data'', JList [JObj [(ustr ''post'', JStr (ustr ''a''))]])] (ustr ''timestamp'') = None
   \<and> map_of [(ustr ''data'', JList [JObj [(ustr ''post'', JStr (ustr ''b''))]])] (ustr ''timestamp'') = None
   \<and> extract_posts_from_json example_runtime
        (JList [JObj [(ustr ''data'', JList [JObj [(ustr ''post'', JStr (ustr ''a''))]])],
                JObj [(ustr ''data'', JList [JObj [(ustr ''post'', JStr (ustr ''b''))]])]])
       = Inr [text_post 0 ''a'']
   \<and> extract_posts_from_json example_runtime
        (JList [JObj [(ustr ''data'', JList [JObj [(ustr ''post'', JStr (ustr ''a''))]])]])
       = Inr [text_post 0 ''a'']
   \<and> length (filter (\<lambda>p. hash_key (timestamp p) = JInt 0) [text_post 0 ''a'']) \<le> 1"
proof -
  have h1: "map_of [(ustr ''data'', JList [JObj [(ustr ''post'', JStr (ustr ''a''))]])] (ustr ''timestamp'') = None"
    by code_simp
  have h2: "map_of [(ustr ''data'', JList [JObj [(ustr ''post'', JStr (ustr ''b''))]])] (ustr ''timestamp'') = None"
    by code_simp
  have e: "extract_posts_from_json example_runtime
        (JList [JObj [(ustr ''data'', JList [JObj [(ustr ''post'', JStr (ustr ''a''))]])]])
       = Inr [text_post 0 ''a'']"
    by code_simp
  from missing_timestamp_key_zero [OF h1 h2, of example_runtime "[]" "[]" "[]" _ "[text_post 0 ''a'']"] h1 h2 e
  show ?thesis by simp
qed

lemma extract_step_content:
  assumes "extract_step rt st item = Inr st'" and "list_all has_content (snd st)"
  shows "list_all has_content (snd st')"
  using assms(1)
proof (rule extract_step_cases)
  fix ts assume "st' = st"
  then show ?thesis using assms(2) by simp
next
  fix ts r
  assume b: "build_post rt ts item = Inr r"
    and st': "st' = (insert (hash_key ts) (fst st), (case r of None \<Rightarrow> snd st | Some p \<Rightarrow> snd st @ [p]))"
  show ?thesis
  proof (cases r)
    case None
    then show ?thesis using st' assms(2) by simp
  next
    case (Some p)
    then have "has_content p" using build_post_Some [of rt ts item p] b by (simp add: has_content_def)
    then show ?thesis using st' Some assms(2) by simp
  qed
qed

lemma extract_posts_content:
  assumes "extract_posts_from_json rt data = Inr posts"
  shows "list_all has_content posts"
proof -
  from assms obtain items st where f: "fold_raise (extract_step rt) ({}, []) items = Inr st"
    and p: "posts = snd st"
    by (auto simp: extract_posts_from_json_def sbind_eq_Inr)
  have "list_all has_content (snd st)"
  proof (rule fold_raise_invariant [OF f, where P = "\<lambda>s. list_all has_content (snd s)"])
    show "list_all has_content (snd ({}, []))" by simp
    show "\<And>s x t. list_all has_content (snd s) \<Longrightarrow> extract_step rt s x = Inr t
            \<Longrightarrow> list_all has_content (snd t)"
      using extract_step_content by blast
  qed
  then show ?thesis using p by simp
qed

lemma extract_step_empty_record:
  assumes "item_text item = Inr (JStr [])" and "item_attachments rt item = Inr ([], url)"
    and "extract_step rt st item = Inr st'"
  shows "snd st' = snd st"
  using assms(3)
proof (rule extract_step_cases)
  fix ts assume "st' = st"
  then show ?thesis by simp
next
  fix ts r
  assume b: "build_post rt ts item = Inr r"
    and st': "st' = (insert (hash_key ts) (fst st), (case r of None \<Rightarrow> snd st | Some p \<Rightarrow> snd st @ [p]))"
  have "r = None" using b build_post_empty [OF assms(1,2), of ts] by (cases r) auto
  then show ?thesis using st' by simp
qed

lemma fold_raise_split:
  assumes "fold_raise f s (pre @ x # suf) = Inr s'"
  obtains t u where "fold_raise f s pre = Inr t" "f t x = Inr u" "fold_raise f u suf = Inr s'"
proof -
  from assms have "sbind (fold_raise f s pre) (\<lambda>t. fold_raise f t (x # suf)) = Inr s'"
    by (simp only: fold_raise_append)
  then obtain t where t: "fold_raise f s pre = Inr t" and r: "fold_raise f t (x # suf) = Inr s'"
    unfolding sbind_eq_Inr by blast
  from r obtain u where "f t x = Inr u" "fold_raise f u suf = Inr s'"
    by (cases "f t x") simp_all
  with t that show thesis by blast
qed

text \<open>
  C2. A record whose extracted text is empty and whose extracted photo list is empty
  yields no post, whatever its timestamp, title, tags and external URL: the loop body
  builds none, the list of posts is the same after the record as before it, and every
  post of a batch has a text or a photo.
\<close>

theorem empty_record_yields_no_post:
  assumes "item_text item = Inr (JStr [])" and "item_attachments rt item = Inr ([], url)"
  shows "build_post rt ts item \<noteq> Inr (Some p)
     \<and> (extract_step rt st item = Inr st' \<longrightarrow> snd st' = snd st)
     \<and> (extract_posts_from_json rt (JList (pre @ item # suf)) = Inr res \<longrightarrow>
          (\<exists>t seen' u. fold_raise (extract_step rt) ({}, []) pre = Inr t
             \<and> fold_raise (extract_step rt) (seen', snd t) suf = Inr u \<and> snd u = res))
     \<and> (extract_posts_from_json rt data = Inr posts \<longrightarrow>
          list_all (\<lambda>p. py_truthy (post_text p) \<or> photo_paths p \<noteq> []) posts)"
proof (intro conjI impI)
  show "build_post rt ts item \<noteq> Inr (Some p)" by (rule build_post_empty [OF assms])
  show "snd st' = snd st" if "extract_step rt st item = Inr st'"
    by (rule extract_step_empty_record [OF assms that])
  show "\<exists>t seen' u. fold_raise (extract_step rt) ({}, []) pre = Inr t
             \<and> fold_raise (extract_step rt) (seen', snd t) suf = Inr u \<and> snd u = res"
    if "extract_posts_from_json rt (JList (pre @ item # suf)) = Inr res"
  proof -
    from that obtain w where w: "fold_raise (extract_step rt) ({}, []) (pre @ item # suf) = Inr w"
      and res: "res = snd w"
      by (auto simp: extract_posts_from_json_def sbind_eq_Inr)
    from w obtain t u where t: "fold_raise (extract_step rt) ({}, []) pre = Inr t"
      and s: "extract_step rt t item = Inr u" and r: "fold_raise (extract_step rt) u suf = Inr w"
      by (rule fold_raise_split)
    have "snd u = snd t" by (rule extract_step_empty_record [OF assms s])
    then have "u = (fst u, snd t)" by (cases u) simp
    with r have "fold_raise (extract_step rt) (fst u, snd t) suf = Inr w" by simp
    with t res show ?thesis by blast
  qed
  show "list_all (\<lambda>p. py_truthy (post_text p) \<or> photo_paths p \<noteq> []) posts"
    if "extract_posts_from_json rt data = Inr posts"
    using extract_posts_content [OF that] by (simp add: has_content_def [abs_def])
qed

theorem empty_record_yields_no_post_witness:
  "item_text (bare_record 10) = Inr (JStr [])
   \<and> item_attachments example_runtime (bare_record 10) = Inr ([], JStr [])
   \<and> build_post example_runtime (JInt 10) (bare_record 10) = Inr None
   \<and> extract_step example_runtime ({}, [text_post 5 ''a'']) (bare_record 10)
       = Inr ({JInt 10}, [text_post 5 ''a''])
   \<and> extract_posts_from_json example_runtime
        (JList [text_record 5 ''a'', bare_record 10, text_record 7 ''b''])
       = Inr [text_post 5 ''a'', text_post 7 ''b'']
   \<and> list_all (\<lambda>p. py_truthy (post_text p) \<or> photo_paths p \<noteq> [])
        [text_post 5 ''a'', text_post 7 ''b'']"
proof -
  have h1: "item_text (bare_record 10) = Inr (JStr [])" by code_simp
  have h2: "item_attachments example_runtime (bare_record 10) = Inr ([], JStr [])" by code_simp
  have e1: "build_post example_runtime (JInt 10) (bare_record 10) = Inr None" by code_simp
  have e2: "extract_step example_runtime ({}, [text_post 5 ''a'']) (bare_record 10)
       = Inr ({JInt 10}, [text_post 5 ''a''])" by code_simp
  have e3: "extract_posts_from_json example_runtime
        (JList [text_record 5 ''a'', bare_record 10, text_record 7 ''b''])
       = Inr [text_post 5 ''a'', text_post 7 ''b'']" by code_simp
  from empty_record_yields_no_post [OF h1 h2, of "JInt 10" _ _ _ _ _ _
      "JList [text_record 5 ''a'', bare_record 10, text_record 7 ''b'']"
      "[text_post 5 ''a'', text_post 7 ''b'']"] h1 h2 e1 e2 e3
  show ?thesis by simp
qed

lemma scan_att_data_url:
  assumes "scan_att_data rt st e = Inr st'"
  shows "\<exists>ec. py_get e (ustr ''external_context'') JNull = Inr ec
           \<and> (if py_truthy ec then py_get ec (ustr ''url'') (JStr []) = Inr (snd st')
               else snd st' = snd st)"
proof -
  from assms obtain media photos ec where
    ec: "py_get e (ustr ''external_context'') JNull = Inr ec"
    and r: "(if py_truthy ec
             then sbind (py_get ec (ustr ''url'') (JStr [])) (\<lambda>u. Inr (photos, u))
             else Inr (photos, snd st)) = Inr st'"
    unfolding scan_att_data_def sbind_eq_Inr by blast
  show ?thesis
  proof (cases "py_truthy ec")
    case True
    then show ?thesis using ec r by (auto simp: sbind_eq_Inr)
  next
    case False
    then show ?thesis using ec r by auto
  qed
qed

lemma scan_without_context:
  assumes "scan_att_data rt st e = Inr st'" and "without_context e"
  shows "snd st' = snd st"
  using scan_att_data_url [OF assms(1)] assms(2) by (auto simp: without_context_def split: if_splits)

lemma fold_scan_without_context:
  assumes "fold_raise (scan_att_data rt) st es = Inr st'" and "list_all without_context es"
  shows "snd st' = snd st"
  using assms
proof (induction es arbitrary: st)
  case Nil
  then show ?case by simp
next
  case (Cons e es)
  from Cons.prems(1) obtain t where t: "scan_att_data rt st e = Inr t"
    and r: "fold_raise (scan_att_data rt) t es = Inr st'"
    by (cases "scan_att_data rt st e") simp_all
  have "snd t = snd st" using scan_without_context [OF t] Cons.prems(2) by simp
  moreover have "snd st' = snd t" using Cons.IH [OF r] Cons.prems(2) by simp
  ultimately show ?case by simp
qed

lemma fold_scan_last_context:
  assumes "fold_raise (scan_att_data rt) st (es @ e # es') = Inr st'"
    and "py_get e (ustr ''external_context'') JNull = Inr ec" and "py_truthy ec"
    and "list_all without_context es'"
  shows "py_get ec (ustr ''url'') (JStr []) = Inr (snd st')"
proof -
  from assms(1) obtain t u where s: "scan_att_data rt t e = Inr u"
    and r: "fold_raise (scan_att_data rt) u es' = Inr st'"
    by (rule fold_raise_split)
  have "py_get ec (ustr ''url'') (JStr []) = Inr (snd u)"
    using scan_att_data_url [OF s] assms(2,3) by auto
  moreover have "snd st' = snd u" using fold_scan_without_context [OF r] assms(4) by simp
  ultimately show ?thesis by simp
qed

lemma scan_attachment_entries:
  "scan_attachment rt st attachment = Inr st' \<longleftrightarrow>
     (\<exists>es. attachment_entries attachment = Inr es \<and> fold_raise (scan_att_data rt) st es = Inr st')"
  unfolding scan_attachment_def attachment_entries_def sbind_eq_Inr by blast

lemma fold_scan_attachment_flat:
  assumes "fold_raise (scan_attachment rt) st attachments = Inr st'"
  shows "\<exists>ess. map_raise attachment_entries attachments = Inr ess
           \<and> fold_raise (scan_att_data rt) st (concat ess) = Inr st'"
  using assms
proof (induction attachments arbitrary: st)
  case Nil
  then show ?case by simp
next
  case (Cons a as)
  from Cons.prems obtain t where t: "scan_attachment rt st a = Inr t"
    and r: "fold_raise (scan_attachment rt) t as = Inr st'"
    by (cases "scan_attachment rt st a") simp_all
  from t obtain es where es: "attachment_entries a = Inr es"
    and f: "fold_raise (scan_att_data rt) st es = Inr t"
    unfolding scan_attachment_entries by blast
  from Cons.IH [OF r] obtain ess where m: "map_raise attachment_entries as = Inr ess"
    and g: "fold_raise (scan_att_data rt) t (concat ess) = Inr st'"
    by blast
  have "map_raise attachment_entries (a # as) = Inr (es # ess)" using es m by simp
  moreover have "fold_raise (scan_att_data rt) st (concat (es # ess)) = Inr st'"
    using f g by (simp add: fold_raise_append)
  ultimately show ?case by blast
qed

lemma item_attachments_flat:
  assumes "item_attachments rt item = Inr st'"
  shows "\<exists>es. record_entries item = Inr es
           \<and> fold_raise (scan_att_data rt) ([], JStr []) es = Inr st'"
proof -
  from assms obtain a attachments where a: "py_get item (ustr ''attachments'') (JList []) = Inr a"
    and i: "py_iter a = Inr attachments"
    and f: "fold_raise (scan_attachment rt) ([], JStr []) attachments = Inr st'"
    unfolding item_attachments_def sbind_eq_Inr by blast
  from fold_scan_attachment_flat [OF f] obtain ess where
    m: "map_raise attachment_entries attachments = Inr ess"
    and g: "fold_raise (scan_att_data rt) ([], JStr []) (concat ess) = Inr st'"
    by blast
  have "record_entries item = Inr (concat ess)" using a i m by (simp add: record_entries_def)
  then show ?thesis using g by blast
qed

text \<open>
  C7, as amended. While the attachments of a record are scanned, the external URL is
  overwritten by every attachment entry whose \<^verbatim>\<open>external_context\<close> is present and true:
  with its \<^verbatim>\<open>url\<close> field, or with the empty str when it has none. Entries whose
  \<^verbatim>\<open>external_context\<close> is absent or false leave it as it was. So over all entries of
  all attachments of the record, in scan order, the last entry with a context decides
  the URL of the record, and the URL is empty when no entry has one.
\<close>

theorem external_url_last_context_wins:
  assumes "item_attachments rt item = Inr (photos, url)"
  shows "\<exists>entries. record_entries item = Inr entries
           \<and> (list_all without_context entries \<longrightarrow> url = JStr [])
           \<and> (\<forall>es e es' ec.
                 entries = es @ e # es'
                 \<and> py_get e (ustr ''external_context'') JNull = Inr ec \<and> py_truthy ec
                 \<and> list_all without_context es'
                 \<longrightarrow> py_get ec (ustr ''url'') (JStr []) = Inr url)"
proof -
  from item_attachments_flat [OF assms] obtain entries where
    r: "record_entries item = Inr entries"
    and f: "fold_raise (scan_att_data rt) ([], JStr []) entries = Inr (photos, url)"
    by blast
  have 1: "url = JStr []" if "list_all without_context entries"
    using fold_scan_without_context [OF f that] by simp
  have 2: "py_get ec (ustr ''url'') (JStr []) = Inr url"
    if "entries = es @ e # es'" "py_get e (ustr ''external_context'') JNull = Inr ec"
      "py_truthy ec" "list_all without_context es'" for es e es' ec
    using fold_scan_last_context [OF f [unfolded that(1)] that(2,3,4)] by simp
  show ?thesis using r 1 2 by blast
qed

theorem external_url_last_context_wins_witness:
  "item_attachments example_runtime
      (attachments_record [[context_entry ''url'' ''u1'', context_entry ''url'' ''u2''],
                           [media_entry ''a.png'']])
     = Inr ([ustr ''a.png''], JStr (ustr ''u2''))
   \<and> record_entries
      (attachments_record [[context_entry ''url'' ''u1'', context_entry ''url'' ''u2''],
                           [media_entry ''a.png'']])
     = Inr ([context_entry ''url'' ''u1''] @ context_entry ''url'' ''u2'' # [media_entry ''a.png''])
   \<and> py_get (context_entry ''url'' ''u2'') (ustr ''external_context'') JNull
       = Inr (JObj [(ustr ''url'', JStr (ustr ''u2''))])
   \<and> py_truthy (JObj [(ustr ''url'', JStr (ustr ''u2''))])
   \<and> list_all without_context [media_entry ''a.png'']
   \<and> py_get (JObj [(ustr ''url'', JStr (ustr ''u2''))]) (ustr ''url'') (JStr [])
       = Inr (JStr (ustr ''u2''))
   \<and> item_attachments example_runtime (attachments_record [[media_entry ''a.png'']])
       = Inr ([ustr ''a.png''], JStr [])"
proof -
  let ?item = "attachments_record [[context_entry ''url'' ''u1'', context_entry ''url'' ''u2''],
                           [media_entry ''a.png'']]"
  have e1: "item_attachments example_runtime ?item = Inr ([ustr ''a.png''], JStr (ustr ''u2''))"
    by code_simp
  have e2: "record_entries ?item
     = Inr ([context_entry ''url'' ''u1''] @ context_entry ''url'' ''u2'' # [media_entry ''a.png''])"
    by code_simp
  have e3: "py_get (context_entry ''url'' ''u2'') (ustr ''external_context'') JNull
       = Inr (JObj [(ustr ''url'', JStr (ustr ''u2''))])" by code_simp
  have e4: "py_truthy (JObj [(ustr ''url'', JStr (ustr ''u2''))])" by simp
  have e5: "list_all without_context [media_entry ''a.png'']" by code_simp
  have e6: "item_attachments example_runtime (attachments_record [[media_entry ''a.png'']])
       = Inr ([ustr ''a.png''], JStr [])" by code_simp
  from external_url_last_context_wins [OF e1] e2
  have "\<forall>es e es' ec.
          [context_entry ''url'' ''u1''] @ context_entry ''url'' ''u2'' # [media_entry ''a.png'']
            = es @ e # es'
          \<and> py_get e (ustr ''external_context'') JNull = Inr ec \<and> py_truthy ec
          \<and> list_all without_context es'
          \<longrightarrow> py_get ec (ustr ''url'') (JStr []) = Inr (JStr (ustr ''u2''))"
    by auto
  then have "py_get (JObj [(ustr ''url'', JStr (ustr ''u2''))]) (ustr ''url'') (JStr [])
       = Inr (JStr (ustr ''u2''))"
    using e3 e4 e5 by blast
  then show ?thesis using e1 e2 e3 e4 e5 e6 by simp
qed

text \<open>
  The claim as stated fails: an entry whose \<^verbatim>\<open>external_context\<close> has no \<^verbatim>\<open>url\<close> field
  resets the URL extracted before it to the empty str.
\<close>

theorem external_url_reset_counterexample:
  "map_of [(ustr ''name'', JStr (ustr ''n''))] (ustr ''url'') = None
   \<and> scan_att_data example_runtime ([], JStr (ustr ''u1'')) (context_entry ''name'' ''n'')
       = Inr ([], JStr [])
   \<and> item_attachments example_runtime
        (JObj [(ustr ''attachments'',
                JList [JObj [(ustr ''data'',
                              JList [context_entry ''url'' ''u1'', context_entry ''name'' ''n''])]])])
       = Inr ([], JStr [])"
  by code_simp

lemma accept_posts_eq:
  "accept_posts (all, seen) ps = (all @ first_by_key seen ps, seen \<union> post_key ` set ps)"
proof (induction ps arbitrary: all seen)
  case Nil
  then show ?case by simp
next
  case (Cons p ps)
  show ?case
  proof (cases "post_key p \<in> seen")
    case True
    then show ?thesis using Cons.IH [of all seen] by (auto simp: post_key_def)
  next
    case False
    then show ?thesis using Cons.IH [of "all @ [p]" "insert (post_key p) seen"]
      by (auto simp: post_key_def)
  qed
qed

lemma first_by_key_append:
  "first_by_key seen (xs @ ys) = first_by_key seen xs @ first_by_key (seen \<union> post_key ` set xs) ys"
proof (induction xs arbitrary: seen)
  case Nil
  then show ?case by simp
next
  case (Cons p xs)
  show ?case
  proof (cases "post_key p \<in> seen")
    case True
    then have "seen \<union> post_key ` set (p # xs) = seen \<union> post_key ` set xs" by auto
    then show ?thesis using True Cons.IH [of seen] by simp
  next
    case False
    have "seen \<union> post_key ` set (p # xs) = insert (post_key p) seen \<union> post_key ` set xs" by auto
    then show ?thesis using False Cons.IH [of "insert (post_key p) seen"] by simp
  qed
qed

lemma load_file_eq:
  assumes "load_file rt (all, seen, out) file = Inr st'"
  shows "fst st' = all @ first_by_key seen (file_posts rt file)
         \<and> fst (snd st') = seen \<union> post_key ` set (file_posts rt file)"
proof (cases "snd file")
  case (Inl e)
  then show ?thesis using assms by (cases e) (auto simp: load_file_def file_posts_def)
next
  case (Inr data)
  then obtain posts where p: "extract_posts_from_json rt data = Inr posts"
    and s: "st' = (fst (accept_posts (all, seen) posts), snd (accept_posts (all, seen) posts),
                   out @ [ustr ''Processing: '' @ fst file])"
    using assms by (auto simp: load_file_def Let_def sbind_eq_Inr)
  have "file_posts rt file = posts" using Inr p by (simp add: file_posts_def)
  then show ?thesis using s by (simp add: accept_posts_eq)
qed

lemma fold_load_eq:
  assumes "fold_raise (load_file rt) (all, seen, out) files = Inr st'"
  shows "fst st' = all @ first_by_key seen (concat (map (file_posts rt) files))"
  using assms
proof (induction files arbitrary: all seen out)
  case Nil
  then show ?case by auto
next
  case (Cons f fs)
  from Cons.prems obtain t where t: "load_file rt (all, seen, out) f = Inr t"
    and r: "fold_raise (load_file rt) t fs = Inr st'"
    by (cases "load_file rt (all, seen, out) f") simp_all
  obtain a s p where tt: "t = (a, s, p)" by (cases t)
  have a: "a = all @ first_by_key seen (file_posts rt f)"
    and s: "s = seen \<union> post_key ` set (file_posts rt f)"
    using load_file_eq [OF t] tt by simp_all
  have "fst st' = a @ first_by_key s (concat (map (file_posts rt) fs))"
    using Cons.IH [of a s p] r tt by simp
  then show ?case using a s by (simp add: first_by_key_append)
qed

lemma load_loop_eq:
  assumes "load_loop rt files = Inr (ps, seen, out)"
  shows "ps = first_by_key {} (concat (map (file_posts rt) files))"
  using fold_load_eq [of rt "[]" "{}" "[]" files "(ps, seen, out)"] assms
  by (simp add: load_loop_def)

lemma sort_posts_fixed:
  assumes "sort_posts ps = Inr qs"
  shows "qs = ps \<longleftrightarrow> sorted_wrt (\<lambda>p q. number_of (timestamp q) \<le> number_of (timestamp p)) ps"
proof
  assume "qs = ps"
  then show "sorted_wrt (\<lambda>p q. number_of (timestamp q) \<le> number_of (timestamp p)) ps"
    using sort_posts_sorted [OF assms] by simp
next
  assume s: "sorted_wrt (\<lambda>p q. number_of (timestamp q) \<le> number_of (timestamp p)) ps"
  then have "sorted (map (\<lambda>p. - number_of (timestamp p)) ps)" by (simp add: sorted_wrt_map)
  then have "sort_key (\<lambda>p. - number_of (timestamp p)) ps = ps" by (rule sort_key_id_if_sorted)
  then show "qs = ps" using assms by (auto simp: sort_posts_def split: if_splits)
qed

text \<open>
  C6, as amended. \<open>load_and_merge_posts\<close> does not return the accepted posts in encounter
  order: its loop collects them in that order (each file's posts in turn, the first post
  of a timestamp winning) and the same function sorts them before it returns. What it
  returns is a rearrangement of the collected posts in descending order of timestamp,
  equal to the collected list only when that list is descending already.
\<close>

theorem load_and_merge_returns_sorted:
  assumes "load_and_merge_posts rt files = Inr (qs, out)"
  shows "\<exists>ps seen. load_loop rt files = Inr (ps, seen, out)
           \<and> ps = first_by_key {} (concat (map (file_posts rt) files))
           \<and> sort_posts ps = Inr qs
           \<and> mset qs = mset ps
           \<and> sorted_wrt (\<lambda>p q. number_of (timestamp q) \<le> number_of (timestamp p)) qs
           \<and> (qs = ps \<longleftrightarrow>
                sorted_wrt (\<lambda>p q. number_of (timestamp q) \<le> number_of (timestamp p)) ps)"
proof -
  from assms obtain ps seen where l: "load_loop rt files = Inr (ps, seen, out)"
    and s: "sort_posts ps = Inr qs"
    by (auto simp: load_and_merge_split)
  show ?thesis
    using l s load_loop_eq [OF l] sort_posts_mset [OF s] sort_posts_sorted [OF s]
      sort_posts_fixed [OF s]
    by blast
qed

theorem load_and_merge_returns_sorted_witness:
  "load_and_merge_posts example_runtime
     [(ustr ''A'', Inr (JList [text_record 100 ''a'', text_record 300 ''b''])),
      (ustr ''B'', Inr (JList [text_record 300 ''c'', text_record 200 ''d'']))]
     = Inr ([text_post 300 ''b'', text_post 200 ''d'', text_post 100 ''a''],
            [ustr ''Processing: A'', ustr ''Processing: B''])
   \<and> (\<exists>ps. ps = first_by_key {}
                  (concat (map (file_posts example_runtime)
                     [(ustr ''A'', Inr (JList [text_record 100 ''a'', text_record 300 ''b''])),
                      (ustr ''B'', Inr (JList [text_record 300 ''c'', text_record 200 ''d'']))]))
          \<and> sort_posts ps = Inr [text_post 300 ''b'', text_post 200 ''d'', text_post 100 ''a'']
          \<and> mset [text_post 300 ''b'', text_post 200 ''d'', text_post 100 ''a''] = mset ps)"
proof -
  have e: "load_and_merge_posts example_runtime
     [(ustr ''A'', Inr (JList [text_record 100 ''a'', text_record 300 ''b''])),
      (ustr ''B'', Inr (JList [text_record 300 ''c'', text_record 200 ''d'']))]
     = Inr ([text_post 300 ''b'', text_post 200 ''d'', text_post 100 ''a''],
            [ustr ''Processing: A'', ustr ''Processing: B''])"
    by code_simp
  from load_and_merge_returns_sorted [OF e] e show ?thesis by blast
qed

text \<open>
  The claim as stated fails: for one file with the timestamps 100 and 300 in that order,
  the posts are accepted as 100, 300 and returned as 300, 100.
\<close>

theorem load_and_merge_not_encounter_order_counterexample:
  "map_sum id fst (load_loop example_runtime
       [(ustr ''A'', Inr (JList [text_record 100 ''a'', text_record 300 ''b'']))])
     = Inr [text_post 100 ''a'', text_post 300 ''b'']
   \<and> load_and_merge_posts example_runtime
       [(ustr ''A'', Inr (JList [text_record 100 ''a'', text_record 300 ''b'']))]
     = Inr ([text_post 300 ''b'', text_post 100 ''a''], [ustr ''Processing: A''])"
  by code_simp

lemma batch_offer_Cons:
  "batch_offer rt k (item # items) =
     (if record_key item = Some k
      then (case py_get item (ustr ''timestamp'') (JInt 0) of
              Inr ts \<Rightarrow> (case build_post rt ts item of Inr (Some p) \<Rightarrow> [p] | _ \<Rightarrow> [])
            | Inl e \<Rightarrow> [])
      else batch_offer rt k items)"
  by (simp add: batch_offer_def)

lemma extract_fold_offer:
  assumes "fold_raise (extract_step rt) st items = Inr st'"
  shows "filter (\<lambda>p. post_key p = k) (snd st')
         = filter (\<lambda>p. post_key p = k) (snd st) @ (if k \<in> fst st then [] else batch_offer rt k items)"
  using assms
proof (induction items arbitrary: st)
  case Nil
  then show ?case by (simp add: batch_offer_def)
next
  case (Cons item items)
  from Cons.prems obtain t where t: "extract_step rt st item = Inr t"
    and r: "fold_raise (extract_step rt) t items = Inr st'"
    by (cases "extract_step rt st item") simp_all
  note IH = Cons.IH [OF r]
  from t show ?case
  proof (rule extract_step_cases)
    fix ts
    assume g: "py_get item (ustr ''timestamp'') (JInt 0) = Inr ts" and h: "hashable ts"
      and m: "hash_key ts \<in> fst st" and e: "t = st"
    have rk: "record_key item = Some (hash_key ts)" using g h by (simp add: record_key_def)
    show ?thesis
    proof (cases "k \<in> fst st")
      case True
      then show ?thesis using IH e by simp
    next
      case False
      then have "hash_key ts \<noteq> k" using m by auto
      then have "batch_offer rt k (item # items) = batch_offer rt k items"
        using rk by (simp add: batch_offer_Cons)
      then show ?thesis using IH e False by simp
    qed
  next
    fix ts r
    assume g: "py_get item (ustr ''timestamp'') (JInt 0) = Inr ts" and h: "hashable ts"
      and m: "hash_key ts \<notin> fst st" and b: "build_post rt ts item = Inr r"
      and e: "t = (insert (hash_key ts) (fst st), (case r of None \<Rightarrow> snd st | Some p \<Rightarrow> snd st @ [p]))"
    have rk: "record_key item = Some (hash_key ts)" using g h by (simp add: record_key_def)
    have key: "post_key p = hash_key ts" if "r = Some p" for p
      using build_post_Some [of rt ts item p] b that by (simp add: post_key_def)
    show ?thesis
    proof (cases "hash_key ts = k")
      case True
      then have nk: "k \<notin> fst st" using m by simp
      have off: "batch_offer rt k (item # items) = (case r of None \<Rightarrow> [] | Some p \<Rightarrow> [p])"
        using rk True g b by (simp add: batch_offer_Cons split: option.splits)
      have "filter (\<lambda>p. post_key p = k) (snd t)
            = filter (\<lambda>p. post_key p = k) (snd st) @ (case r of None \<Rightarrow> [] | Some p \<Rightarrow> [p])"
        using e key True by (cases r) simp_all
      moreover have "k \<in> fst t" using e True by simp
      ultimately show ?thesis using IH nk off by simp
    next
      case False
      then have off: "batch_offer rt k (item # items) = batch_offer rt k items"
        using rk by (simp add: batch_offer_Cons)
      have "filter (\<lambda>p. post_key p = k) (snd t) = filter (\<lambda>p. post_key p = k) (snd st)"
        using e key False by (cases r) simp_all
      moreover have "k \<in> fst t \<longleftrightarrow> k \<in> fst st" using e False by auto
      ultimately show ?thesis using IH off by simp
    qed
  qed
qed

lemma batch_offer_le1: "length (batch_offer rt k items) \<le> 1"
  by (simp add: batch_offer_def split: option.splits sum.splits)

lemma file_offer_le1: "length (file_offer rt k file) \<le> 1"
proof (cases "snd file")
  case (Inl e)
  then show ?thesis by (simp add: file_offer_def)
next
  case (Inr data)
  then show ?thesis using batch_offer_le1 [of rt k]
    by (cases "py_iter data") (simp_all add: file_offer_def)
qed

lemma extract_posts_offer:
  assumes "extract_posts_from_json rt data = Inr posts"
  shows "\<exists>items. py_iter data = Inr items
           \<and> filter (\<lambda>p. post_key p = k) posts = batch_offer rt k items"
proof -
  from assms obtain items st where i: "py_iter data = Inr items"
    and f: "fold_raise (extract_step rt) ({}, []) items = Inr st" and p: "posts = snd st"
    by (auto simp: extract_posts_from_json_def sbind_eq_Inr)
  from extract_fold_offer [OF f, of k] i p show ?thesis by simp
qed

lemma first_by_key_filter:
  "filter (\<lambda>p. post_key p = k) (first_by_key seen ps)
   = (if k \<in> seen then [] else take 1 (filter (\<lambda>p. post_key p = k) ps))"
proof (induction ps arbitrary: seen)
  case Nil
  then show ?case by simp
next
  case (Cons p ps)
  show ?case
  proof (cases "post_key p \<in> seen")
    case True
    then show ?thesis using Cons.IH [of seen] by auto
  next
    case False
    then show ?thesis using Cons.IH [of "insert (post_key p) seen"] by auto
  qed
qed

lemma fold_load_offers:
  assumes "fold_raise (load_file rt) st files = Inr st'"
  shows "filter (\<lambda>p. post_key p = k) (concat (map (file_posts rt) files))
         = concat (map (file_offer rt k) files)"
  using assms
proof (induction files arbitrary: st)
  case Nil
  then show ?case by simp
next
  case (Cons f fs)
  from Cons.prems obtain t where t: "load_file rt st f = Inr t"
    and r: "fold_raise (load_file rt) t fs = Inr st'"
    by (cases "load_file rt st f") simp_all
  have "filter (\<lambda>p. post_key p = k) (file_posts rt f) = file_offer rt k f"
  proof (cases "snd f")
    case (Inl e)
    then show ?thesis by (simp add: file_posts_def file_offer_def)
  next
    case (Inr data)
    then obtain posts where p: "extract_posts_from_json rt data = Inr posts"
      using t by (auto simp: load_file_def Let_def sbind_eq_Inr)
    from extract_posts_offer [OF p, of k] Inr p show ?thesis
      by (auto simp: file_posts_def file_offer_def)
  qed
  then show ?case using Cons.IH [OF r] by simp
qed

lemma filter_le1_mset_eq:
  assumes "mset qs = mset ps" and "length (filter P ps) \<le> 1"
  shows "filter P qs = filter P ps"
proof -
  have m: "mset (filter P qs) = mset (filter P ps)" using assms(1) by simp
  show ?thesis
  proof (cases "filter P ps")
    case Nil
    then show ?thesis using m by simp
  next
    case (Cons a as)
    then have "as = []" using assms(2) by simp
    then have "mset (filter P qs) = {#a#}" using m Cons by (simp del: mset_filter)
    then have "filter P qs = [a]" by (simp only: mset_single_iff)
    then show ?thesis using Cons \<open>as = []\<close> by simp
  qed
qed

text \<open>
  C1, as amended. For every timestamp, a parsed file offers the post of its first record
  with that timestamp if that record passes the retention filter, and nothing otherwise:
  a record that fails the filter still enters the deduplication scope of its batch and
  shadows the later records of the batch, but it never enters the scope across files.
  The final collection holds, for the timestamp, the first offer in file order and
  nothing else. So of a valid and an invalid record with one timestamp exactly the valid
  one survives when they are in different files or the valid one comes first in their
  file; when the invalid one comes first in their file, no post with that timestamp
  survives.
\<close>

theorem first_offer_survives:
  assumes "load_and_merge_posts rt files = Inr (qs, out)"
  shows "filter (\<lambda>p. hash_key (timestamp p) = k) qs
         = take 1 (concat (map (file_offer rt k) files))"
proof -
  from assms obtain ps seen where l: "load_loop rt files = Inr (ps, seen, out)"
    and s: "sort_posts ps = Inr qs"
    by (auto simp: load_and_merge_split)
  have d: "distinct (map post_key ps)" using load_loop_keyed [OF l] by (simp add: keyed_def)
  have "filter (\<lambda>p. post_key p = k) qs = filter (\<lambda>p. post_key p = k) ps"
    by (rule filter_le1_mset_eq [OF sort_posts_mset [OF s] distinct_filter_le1 [OF d]])
  also have "\<dots> = take 1 (filter (\<lambda>p. post_key p = k) (concat (map (file_posts rt) files)))"
    using load_loop_eq [OF l] by (simp add: first_by_key_filter)
  also have "\<dots> = take 1 (concat (map (file_offer rt k) files))"
    using fold_load_offers [of rt "([], {}, [])" files "(ps, seen, out)" k] l
    by (simp add: load_loop_def)
  finally show ?thesis by (simp add: post_key_def)
qed

theorem first_offer_survives_witness:
  "load_and_merge_posts example_runtime
     [(ustr ''A'', Inr (JList [bare_record 10])),
      (ustr ''B'', Inr (JList [text_record 10 ''hi'']))]
     = Inr ([text_post 10 ''hi''], [ustr ''Processing: A'', ustr ''Processing: B''])
   \<and> file_offer example_runtime (JInt 10) (ustr ''A'', Inr (JList [bare_record 10])) = []
   \<and> file_offer example_runtime (JInt 10) (ustr ''B'', Inr (JList [text_record 10 ''hi'']))
       = [text_post 10 ''hi'']
   \<and> filter (\<lambda>p. hash_key (timestamp p) = JInt 10) [text_post 10 ''hi''] = [text_post 10 ''hi'']
   \<and> load_and_merge_posts example_runtime
       [(ustr ''A'', Inr (JList [text_record 10 ''hi'', bare_record 10]))]
     = Inr ([text_post 10 ''hi''], [ustr ''Processing: A''])
   \<and> file_offer example_runtime (JInt 10)
        (ustr ''A'', Inr (JList [text_record 10 ''hi'', bare_record 10]))
       = [text_post 10 ''hi'']"
proof -
  have e1: "load_and_merge_posts example_runtime
     [(ustr ''A'', Inr (JList [bare_record 10])),
      (ustr ''B'', Inr (JList [text_record 10 ''hi'']))]
     = Inr ([text_post 10 ''hi''], [ustr ''Processing: A'', ustr ''Processing: B''])"
    by code_simp
  have e2: "file_offer example_runtime (JInt 10) (ustr ''A'', Inr (JList [bare_record 10])) = []"
    by code_simp
  have e3: "file_offer example_runtime (JInt 10) (ustr ''B'', Inr (JList [text_record 10 ''hi'']))
       = [text_post 10 ''hi'']"
    by code_simp
  have e4: "load_and_merge_posts example_runtime
       [(ustr ''A'', Inr (JList [text_record 10 ''hi'', bare_record 10]))]
     = Inr ([text_post 10 ''hi''], [ustr ''Processing: A''])"
    by code_simp
  have e5: "file_offer example_runtime (JInt 10)
        (ustr ''A'', Inr (JList [text_record 10 ''hi'', bare_record 10]))
       = [text_post 10 ''hi'']"
    by code_simp
  from first_offer_survives [OF e1, of "JInt 10"] e1 e2 e3 e4 e5
  show ?thesis by simp
qed

text \<open>
  The claim as stated fails: in one file, an invalid record followed by a valid record
  with the same timestamp leaves no post with that timestamp, although the valid record
  alone yields one.
\<close>

theorem invalid_first_shadows_valid_counterexample:
  "build_post example_runtime (JInt 10) (bare_record 10) = Inr None
   \<and> build_post example_runtime (JInt 10) (text_record 10 ''hi'') = Inr (Some (text_post 10 ''hi''))
   \<and> load_and_merge_posts example_runtime
       [(ustr ''A'', Inr (JList [text_record 10 ''hi'']))]
     = Inr ([text_post 10 ''hi''], [ustr ''Processing: A''])
   \<and> load_and_merge_posts example_runtime
       [(ustr ''A'', Inr (JList [bare_record 10, text_record 10 ''hi'']))]
     = Inr ([], [ustr ''Processing: A''])"
  by code_simp

section \<open>Properties of the renderer\<close>

declare str_of_nat.simps [simp del]

lemma replace_char_set:
  "set (replace_char c r s) \<subseteq> (set s - {c}) \<union> set r"
  by (induction s) (auto simp: replace_char_def)

lemma escape_str_plain:
  "set (escape_str s) \<inter> {0x3C, 0x3E, 0x22, 0x27} = {}"
proof -
  let ?s1 = "replace_char 0x26 (ustr ''&amp;'') s"
  let ?s2 = "replace_char 0x3C (ustr ''&lt;'') ?s1"
  let ?s3 = "replace_char 0x3E (ustr ''&gt;'') ?s2"
  let ?s4 = "replace_char 0x22 (ustr ''&quot;'') ?s3"
  let ?s5 = "replace_char 0x27 (ustr ''&#x27;'') ?s4"
  have 2: "0x3C \<notin> set ?s2"
    using replace_char_set [of "0x3C" "ustr ''&lt;''" ?s1] by (auto simp: ustr_def)
  have 3: "0x3C \<notin> set ?s3 \<and> 0x3E \<notin> set ?s3"
    using replace_char_set [of "0x3E" "ustr ''&gt;''" ?s2] 2 by (auto simp: ustr_def)
  have 4: "0x3C \<notin> set ?s4 \<and> 0x3E \<notin> set ?s4 \<and> 0x22 \<notin> set ?s4"
    using replace_char_set [of "0x22" "ustr ''&quot;''" ?s3] 3 by (auto simp: ustr_def)
  have 5: "0x3C \<notin> set ?s5 \<and> 0x3E \<notin> set ?s5 \<and> 0x22 \<notin> set ?s5 \<and> 0x27 \<notin> set ?s5"
    using replace_char_set [of "0x27" "ustr ''&#x27;''" ?s4] 4 by (auto simp: ustr_def)
  then show ?thesis by (simp add: escape_str_def)
qed

lemma tag_safe_Cons_lt:
  "tag_safe (0x3C # xs) =
     ((case xs of c1 # c2 # r \<Rightarrow> (c1, c2) \<noteq> (0x73, 0x63) | _ \<Rightarrow> False) \<and> tag_safe xs)"
  by simp

lemma tag_safe_Cons_other: "c \<noteq> 0x3C \<Longrightarrow> tag_safe (c # xs) = tag_safe xs"
  by simp

lemma tag_safe_append: "tag_safe a \<Longrightarrow> tag_safe b \<Longrightarrow> tag_safe (a @ b)"
proof (induction a)
  case Nil
  then show ?case by simp
next
  case (Cons c cs)
  show ?case
  proof (cases "c = 0x3C")
    case False
    have "tag_safe cs" using Cons.prems(1) tag_safe_Cons_other [OF False, of cs] by blast
    then have "tag_safe (cs @ b)" using Cons.IH Cons.prems(2) by blast
    then show ?thesis
      unfolding append_Cons using tag_safe_Cons_other [OF False, of "cs @ b"] by blast
  next
    case True
    from Cons.prems(1) have h: "(case cs of c1 # c2 # r \<Rightarrow> (c1, c2) \<noteq> (0x73, 0x63) | _ \<Rightarrow> False)"
      and s: "tag_safe cs"
      unfolding True tag_safe_Cons_lt by blast+
    have t: "tag_safe (cs @ b)" using Cons.IH s Cons.prems(2) by blast
    have "(case cs @ b of c1 # c2 # r \<Rightarrow> (c1, c2) \<noteq> (0x73, 0x63) | _ \<Rightarrow> False)"
      using h by (cases cs; cases "tl cs") (simp_all del: tag_safe.simps)
    then show ?thesis using t unfolding True append_Cons tag_safe_Cons_lt by blast
  qed
qed

lemma tag_safe_plain: "0x3C \<notin> set s \<Longrightarrow> tag_safe s"
  by (induction s) auto

lemma tag_safe_suffix: "tag_safe (a @ b) \<Longrightarrow> tag_safe b"
  by (induction a) auto

lemma tag_safe_no_script:
  assumes "tag_safe s"
  shows "\<not> sublist (ustr ''<script'') s"
proof
  assume "sublist (ustr ''<script'') s"
  then obtain ps ss where "s = ps @ ustr ''<script'' @ ss" by (auto simp: sublist_def)
  then have "tag_safe (ustr ''<script'' @ ss)" using assms tag_safe_suffix by blast
  then show False by (simp add: ustr_def)
qed

lemma tag_safe_escape: "tag_safe (escape_str s)"
  using escape_str_plain [of s] by (intro tag_safe_plain) auto

lemma str_of_nat_digits: "set (str_of_nat n) \<subseteq> {0x30..0x39}"
proof (induction n rule: str_of_nat.induct)
  case (1 n)
  show ?case
  proof (cases "n < 10")
    case True
    then have "str_of_nat n = [0x30 + n]" by (subst str_of_nat.simps) simp
    then show ?thesis using True by simp
  next
    case False
    have "n mod 10 < 10" by simp
    then have d: "0x30 + n mod 10 \<in> {0x30..0x39::nat}" by simp
    have "str_of_nat n = str_of_nat (n div 10) @ [0x30 + n mod 10]"
      using False by (subst str_of_nat.simps) simp
    then show ?thesis using 1 [OF False] d by simp
  qed
qed

lemma tag_safe_str_of_nat: "tag_safe (str_of_nat n)"
  using str_of_nat_digits [of n] by (intro tag_safe_plain) auto

lemma tag_safe_page_head: "tag_safe page_head"
  unfolding page_head_def by (intro tag_safe_append; code_simp)

lemma tag_safe_page_mid: "tag_safe page_mid"
  unfolding page_mid_def by (intro tag_safe_append; code_simp)

lemma tag_safe_page_tail: "tag_safe page_tail"
  unfolding page_tail_def by (intro tag_safe_append; code_simp)

lemma tag_safe_lits:
  \<open>tag_safe (ustr ''<p class="post-text">'')\<close>
  \<open>tag_safe (ustr ''<p class="title">'')\<close>
  \<open>tag_safe (ustr ''</p>'')\<close>
  \<open>tag_safe (ustr ''<span class="date">'')\<close>
  \<open>tag_safe (ustr ''</span>'')\<close>
  \<open>tag_safe (ustr ''<div class="tags">Ozna'')\<close>
  \<open>tag_safe [0x10D]\<close>
  \<open>tag_safe (ustr ''en'')\<close>
  \<open>tag_safe [0xED]\<close>
  \<open>tag_safe (ustr '': '')\<close>
  \<open>tag_safe (ustr ''</div>'')\<close>
  \<open>tag_safe (ustr ''<a href="'')\<close>
  \<open>tag_safe (ustr ''" target="_blank" rel="noopener" class="external-link">Extern'')\<close>
  \<open>tag_safe [0xFD]\<close>
  \<open>tag_safe (ustr '' odkaz</a>'')\<close>
  \<open>tag_safe (ustr ''<img src="'')\<close>
  \<open>tag_safe (ustr ''" alt="Photo" class="post-photo">'')\<close>
  \<open>tag_safe (ustr ''<div class="photos">'')\<close>
  \<open>tag_safe (ustr ''\<newline>'')\<close>
  \<open>tag_safe (ustr ''        <div class="post">\<newline>'')\<close>
  \<open>tag_safe (ustr ''            <div class="post-header">\<newline>'')\<close>
  \<open>tag_safe (ustr ''                '')\<close>
  \<open>tag_safe (ustr ''            </div>\<newline>'')\<close>
  \<open>tag_safe (ustr ''            '')\<close>
  \<open>tag_safe (ustr ''        </div>\<newline>'')\<close>
  \<open>tag_safe (ustr ''        '')\<close>
  by code_simp+

lemma html_escape_Inr: "html_escape v = Inr e \<longleftrightarrow> (\<exists>s. v = JStr s \<and> e = escape_str s)"
  by (cases v) auto

lemma text_html_Inr:
  \<open>text_html p = Inr h \<longleftrightarrow>
     (if py_truthy (post_text p)
      then \<exists>s. post_text p = JStr s \<and> h = ustr ''<p class="post-text">'' @ escape_str s @ ustr ''</p>''
      else h = [])\<close>
  by (auto simp: text_html_def sbind_eq_Inr html_escape_Inr)

lemma title_html_Inr:
  \<open>title_html p = Inr h \<longleftrightarrow>
     (if py_truthy (title p)
      then \<exists>s. title p = JStr s \<and> h = ustr ''<p class="title">'' @ escape_str s @ ustr ''</p>''
      else h = [])\<close>
  by (auto simp: title_html_def sbind_eq_Inr html_escape_Inr)

lemma tags_html_Inr:
  \<open>tags_html p = Inr h \<longleftrightarrow>
     (if tags p \<noteq> []
      then \<exists>j. str_join (ustr '', '') (tags p) = Inr j
             \<and> h = ustr ''<div class="tags">Ozna'' @ [0x10D] @ ustr ''en'' @ [0xED] @ ustr '': ''
                    @ escape_str j @ ustr ''</div>''
      else h = [])\<close>
  by (auto simp: tags_html_def sbind_eq_Inr)

lemma external_html_Inr:
  \<open>external_html p = Inr h \<longleftrightarrow>
     (if py_truthy (external_url p)
      then \<exists>s. external_url p = JStr s
             \<and> h = ustr ''<a href="'' @ escape_str s
                    @ ustr ''" target="_blank" rel="noopener" class="external-link">Extern''
                    @ [0xFD] @ ustr '' odkaz</a>''
      else h = [])\<close>
  by (auto simp: external_html_def sbind_eq_Inr html_escape_Inr)

lemma tag_safe_text_html: "text_html p = Inr h \<Longrightarrow> tag_safe h"
  unfolding text_html_Inr
  by (auto split: if_splits intro!: tag_safe_append tag_safe_lits tag_safe_escape)

lemma tag_safe_title_html: "title_html p = Inr h \<Longrightarrow> tag_safe h"
  unfolding title_html_Inr
  by (auto split: if_splits intro!: tag_safe_append tag_safe_lits tag_safe_escape)

lemma tag_safe_tags_html: "tags_html p = Inr h \<Longrightarrow> tag_safe h"
  unfolding tags_html_Inr
  by (auto split: if_splits intro!: tag_safe_append tag_safe_lits tag_safe_escape)

lemma tag_safe_external_html: "external_html p = Inr h \<Longrightarrow> tag_safe h"
  unfolding external_html_Inr
  by (auto split: if_splits intro!: tag_safe_append tag_safe_lits tag_safe_escape)

lemma tag_safe_date_html: "tag_safe (date_html p)"
  unfolding date_html_def
  by (auto intro!: tag_safe_append tag_safe_lits tag_safe_escape)

lemma tag_safe_concat: "(\<And>x. x \<in> set xs \<Longrightarrow> tag_safe x) \<Longrightarrow> tag_safe (concat xs)"
  by (induction xs) (simp_all add: tag_safe_append)

lemma tag_safe_photo_html: "tag_safe (photo_html fs p)"
proof -
  have "tag_safe x" if "x \<in> set (photo_copies fs (photo_paths p))" for x
    using that unfolding photo_copies_def
    by (auto intro!: tag_safe_append tag_safe_lits tag_safe_escape)
  then have "tag_safe (concat (photo_copies fs (photo_paths p)))" by (rule tag_safe_concat)
  then show ?thesis
    unfolding photo_html_def by (auto intro!: tag_safe_append tag_safe_lits)
qed

lemma render_post_Inr:
  \<open>render_post fs p = Inr h \<longleftrightarrow>
     (\<exists>t ti tg e. text_html p = Inr t \<and> title_html p = Inr ti \<and> tags_html p = Inr tg
        \<and> external_html p = Inr e
        \<and> h = ustr ''\<newline>'' @
            ustr ''        <div class="post">\<newline>'' @
            ustr ''            <div class="post-header">\<newline>'' @
            ustr ''                '' @ date_html p @ ustr ''\<newline>'' @
            ustr ''            </div>\<newline>'' @
            ustr ''            '' @ ti @ ustr ''\<newline>'' @
            ustr ''            '' @ t @ ustr ''\<newline>'' @
            ustr ''            '' @ photo_html fs p @ ustr ''\<newline>'' @
            ustr ''            '' @ tg @ ustr ''\<newline>'' @
            ustr ''            '' @ e @ ustr ''\<newline>'' @
            ustr ''        </div>\<newline>'' @
            ustr ''        '')\<close>
  unfolding render_post_def sbind_eq_Inr by blast

lemma tag_safe_render_post:
  assumes "render_post fs p = Inr h"
  shows "tag_safe h"
proof -
  from assms obtain t ti tg e where
    1: "text_html p = Inr t" "title_html p = Inr ti" "tags_html p = Inr tg" "external_html p = Inr e"
    and h: \<open>h = ustr ''\<newline>'' @
            ustr ''        <div class="post">\<newline>'' @
            ustr ''            <div class="post-header">\<newline>'' @
            ustr ''                '' @ date_html p @ ustr ''\<newline>'' @
            ustr ''            </div>\<newline>'' @
            ustr ''            '' @ ti @ ustr ''\<newline>'' @
            ustr ''            '' @ t @ ustr ''\<newline>'' @
            ustr ''            '' @ photo_html fs p @ ustr ''\<newline>'' @
            ustr ''            '' @ tg @ ustr ''\<newline>'' @
            ustr ''            '' @ e @ ustr ''\<newline>'' @
            ustr ''        </div>\<newline>'' @
            ustr ''        ''\<close>
    unfolding render_post_Inr by blast
  show ?thesis
    unfolding h
    by (intro tag_safe_append tag_safe_lits tag_safe_date_html tag_safe_photo_html
          tag_safe_text_html [OF 1(1)] tag_safe_title_html [OF 1(2)]
          tag_safe_tags_html [OF 1(3)] tag_safe_external_html [OF 1(4)])
qed

lemma map_raise_Inr:
  "map_raise f xs = Inr ys \<Longrightarrow> length ys = length xs \<and> (\<forall>i < length xs. f (xs ! i) = Inr (ys ! i))"
proof (induction xs arbitrary: ys)
  case Nil
  then show ?case by simp
next
  case (Cons x xs)
  from Cons.prems obtain y ys' where y: "f x = Inr y" and r: "map_raise f xs = Inr ys'"
    and ys: "ys = y # ys'"
    by (auto split: sum.splits)
  show ?case using Cons.IH [OF r] y ys by (auto simp: nth_Cons split: nat.splits)
qed

lemma map_raise_member:
  assumes "map_raise f xs = Inr ys" and "x \<in> set xs"
  shows "\<exists>y \<in> set ys. f x = Inr y"
proof -
  from assms(2) obtain i where i: "i < length xs" "xs ! i = x" by (auto simp: in_set_conv_nth)
  with map_raise_Inr [OF assms(1)] have "f x = Inr (ys ! i)" "i < length ys" by auto
  then show ?thesis by (metis nth_mem)
qed

lemma map_raise_image:
  assumes "map_raise f xs = Inr ys" and "y \<in> set ys"
  shows "\<exists>x \<in> set xs. f x = Inr y"
proof -
  from assms(2) obtain i where i: "i < length ys" "ys ! i = y" by (auto simp: in_set_conv_nth)
  with map_raise_Inr [OF assms(1)] have "f (xs ! i) = Inr y" "i < length xs" by auto
  then show ?thesis by (metis nth_mem)
qed

lemma generate_html_Inr:
  "generate_html fs posts = Inr doc \<longleftrightarrow>
     (\<exists>items. map_raise (render_post fs) posts = Inr items
        \<and> doc = page_head @ str_of_nat (length posts) @ page_mid @ concat items @ page_tail)"
  unfolding generate_html_def sbind_eq_Inr by blast

lemma tag_safe_generate_html:
  assumes "generate_html fs posts = Inr doc"
  shows "tag_safe doc"
proof -
  from assms obtain items where m: "map_raise (render_post fs) posts = Inr items"
    and d: "doc = page_head @ str_of_nat (length posts) @ page_mid @ concat items @ page_tail"
    unfolding generate_html_Inr by blast
  have "tag_safe x" if "x \<in> set items" for x
    using map_raise_image [OF m that] tag_safe_render_post by blast
  then have "tag_safe (concat items)" by (rule tag_safe_concat)
  then show ?thesis
    unfolding d
    by (intro tag_safe_append tag_safe_page_head tag_safe_page_mid tag_safe_page_tail
          tag_safe_str_of_nat)
qed

lemma ustr_eq_Nil [simp]: "ustr s = [] \<longleftrightarrow> s = []"
  by (simp add: ustr_def)

lemma sublist_concat_member: "x \<in> set xs \<Longrightarrow> sublist x (concat xs)"
proof -
  assume "x \<in> set xs"
  then obtain as bs where "xs = as @ x # bs" by (auto simp: in_set_conv_decomp)
  then have "concat xs = concat as @ x @ concat bs" by simp
  then show ?thesis by (metis sublist_appendI)
qed

lemma sublist_trans: "sublist a b \<Longrightarrow> sublist b c \<Longrightarrow> sublist a c"
  by (rule sublist_order.order_trans)

lemma post_in_document:
  assumes "generate_html fs posts = Inr doc" and "p \<in> set posts"
  shows "\<exists>h. render_post fs p = Inr h \<and> sublist h doc"
proof -
  from assms(1) obtain items where m: "map_raise (render_post fs) posts = Inr items"
    and d: "doc = page_head @ str_of_nat (length posts) @ page_mid @ concat items @ page_tail"
    unfolding generate_html_Inr by blast
  from map_raise_member [OF m assms(2)] obtain h where h: "h \<in> set items" "render_post fs p = Inr h"
    by blast
  have "sublist h (concat items)" using h(1) by (rule sublist_concat_member)
  moreover have "doc = (page_head @ str_of_nat (length posts) @ page_mid) @ concat items @ page_tail"
    using d by simp
  then have "sublist (concat items) doc" by (metis sublist_appendI)
  ultimately show ?thesis using h(2) sublist_trans by blast
qed

lemma fragments_in_post:
  assumes "render_post fs p = Inr h"
  shows "\<exists>t ti tg e. text_html p = Inr t \<and> title_html p = Inr ti \<and> tags_html p = Inr tg
           \<and> external_html p = Inr e
           \<and> sublist t h \<and> sublist ti h \<and> sublist tg h \<and> sublist e h
           \<and> sublist (date_html p) h \<and> sublist (photo_html fs p) h"
proof -
  from assms obtain t ti tg e where
    1: "text_html p = Inr t" "title_html p = Inr ti" "tags_html p = Inr tg" "external_html p = Inr e"
    and h: \<open>h = ustr ''\<newline>'' @
            ustr ''        <div class="post">\<newline>'' @
            ustr ''            <div class="post-header">\<newline>'' @
            ustr ''                '' @ date_html p @ ustr ''\<newline>'' @
            ustr ''            </div>\<newline>'' @
            ustr ''            '' @ ti @ ustr ''\<newline>'' @
            ustr ''            '' @ t @ ustr ''\<newline>'' @
            ustr ''            '' @ photo_html fs p @ ustr ''\<newline>'' @
            ustr ''            '' @ tg @ ustr ''\<newline>'' @
            ustr ''            '' @ e @ ustr ''\<newline>'' @
            ustr ''        </div>\<newline>'' @
            ustr ''        ''\<close>
    unfolding render_post_Inr by blast
  define a0 where \<open>a0 = ustr ''\<newline>'' @ ustr ''        <div class="post">\<newline>'' @
            ustr ''            <div class="post-header">\<newline>'' @ ustr ''                ''\<close>
  define a1 where \<open>a1 = ustr ''\<newline>'' @ ustr ''            </div>\<newline>'' @ ustr ''            ''\<close>
  define a2 where \<open>a2 = ustr ''\<newline>'' @ ustr ''            ''\<close>
  define a3 where \<open>a3 = ustr ''\<newline>'' @ ustr ''        </div>\<newline>'' @ ustr ''        ''\<close>
  have h': "h = a0 @ date_html p @ a1 @ ti @ a2 @ t @ a2 @ photo_html fs p @ a2 @ tg @ a2 @ e @ a3"
    unfolding h a0_def a1_def a2_def a3_def by simp
  have "sublist (date_html p) h" unfolding h' by (rule sublist_appendI)
  moreover have "sublist ti h"
    using sublist_appendI [of ti "a0 @ date_html p @ a1"] unfolding h' by simp
  moreover have "sublist t h"
    using sublist_appendI [of t "a0 @ date_html p @ a1 @ ti @ a2"] unfolding h' by simp
  moreover have "sublist (photo_html fs p) h"
    using sublist_appendI [of "photo_html fs p" "a0 @ date_html p @ a1 @ ti @ a2 @ t @ a2"]
    unfolding h' by simp
  moreover have "sublist tg h"
    using sublist_appendI [of tg "a0 @ date_html p @ a1 @ ti @ a2 @ t @ a2 @ photo_html fs p @ a2"]
    unfolding h' by simp
  moreover have "sublist e h"
    using sublist_appendI [of e "a0 @ date_html p @ a1 @ ti @ a2 @ t @ a2 @ photo_html fs p @ a2 @ tg @ a2"]
    unfolding h' by simp
  ultimately show ?thesis using 1 by blast
qed

lemma photo_in_photo_html:
  assumes "path \<in> set (photo_paths p)" and "fs path = Some n"
  shows \<open>sublist (ustr ''<img src="'' @ escape_str (ustr ''photos/'' @ n)
                   @ ustr ''" alt="Photo" class="post-photo">'') (photo_html fs p)\<close>
proof -
  let ?img = \<open>ustr ''<img src="'' @ escape_str (ustr ''photos/'' @ n)
                   @ ustr ''" alt="Photo" class="post-photo">''\<close>
  have c: "copy_photo fs path = ustr ''photos/'' @ n" using assms(2) by (simp add: copy_photo_def)
  then have "copy_photo fs path \<noteq> []" by simp
  then have m: "?img \<in> set (photo_copies fs (photo_paths p))"
    using assms(1) c unfolding photo_copies_def by force
  then have ne: "photo_copies fs (photo_paths p) \<noteq> []" by auto
  have "sublist ?img (concat (photo_copies fs (photo_paths p)))"
    using m by (rule sublist_concat_member)
  moreover have \<open>sublist (concat (photo_copies fs (photo_paths p))) (photo_html fs p)\<close>
    using ne unfolding photo_html_def by simp
  ultimately show ?thesis by (rule sublist_trans)
qed

lemma replace_char_append:
  "replace_char c r (a @ b) = replace_char c r a @ replace_char c r b"
  by (simp add: replace_char_def)

lemma escape_str_append: "escape_str (a @ b) = escape_str a @ escape_str b"
  by (simp add: escape_str_def replace_char_append)

lemma escape_str_sublist:
  assumes "sublist t j"
  shows "sublist (escape_str t) (escape_str j)"
proof -
  from assms obtain a b where "j = a @ t @ b" by (auto simp: sublist_def)
  then have "escape_str j = escape_str a @ escape_str t @ escape_str b"
    by (simp add: escape_str_append)
  then show ?thesis by (metis sublist_appendI)
qed

lemma str_join_strs:
  assumes "str_join sep xs = Inr j"
  shows "\<exists>ss. xs = map JStr ss
           \<and> j = (if ss = [] then [] else concat (map (\<lambda>s. s @ sep) (butlast ss)) @ last ss)"
  using assms
proof (induction xs arbitrary: j)
  case Nil
  then show ?case by simp
next
  case (Cons x xs)
  show ?case
  proof (cases x)
    case (JStr s)
    show ?thesis
    proof (cases xs)
      case Nil
      then have "j = s" using Cons.prems JStr by simp
      then show ?thesis using JStr Nil by (intro exI [of _ "[s]"]) simp
    next
      case (Cons y ys)
      with Cons.prems JStr obtain r where r: "str_join sep xs = Inr r" and j: "j = s @ sep @ r"
        by (auto split: sum.splits)
      from Cons.IH [OF r] obtain ss where ss: "xs = map JStr ss"
        and rr: "r = (if ss = [] then [] else concat (map (\<lambda>s. s @ sep) (butlast ss)) @ last ss)"
        by blast
      have ne: "ss \<noteq> []" using ss Cons by auto
      show ?thesis using JStr ss j rr ne by (intro exI [of _ "s # ss"]) simp
    qed
  qed (use Cons.prems in simp_all)
qed

lemma joined_contains:
  assumes "t \<in> set ss"
  shows "sublist t (concat (map (\<lambda>s. s @ sep) (butlast ss)) @ last ss)"
proof -
  have ne: "ss \<noteq> []" using assms by auto
  then have "ss = butlast ss @ [last ss]" by simp
  then have "t \<in> set (butlast ss) \<or> t = last ss"
    using assms by (metis Un_iff empty_iff empty_set set_ConsD set_append)
  then show ?thesis
  proof
    assume "t \<in> set (butlast ss)"
    then have "t @ sep \<in> set (map (\<lambda>s. s @ sep) (butlast ss))" by auto
    then have "sublist (t @ sep) (concat (map (\<lambda>s. s @ sep) (butlast ss)))"
      by (rule sublist_concat_member)
    moreover have "sublist t (t @ sep)" by simp
    ultimately have "sublist t (concat (map (\<lambda>s. s @ sep) (butlast ss)))"
      using sublist_trans by blast
    moreover have "sublist (concat (map (\<lambda>s. s @ sep) (butlast ss)))
                     (concat (map (\<lambda>s. s @ sep) (butlast ss)) @ last ss)"
      by (rule sublist_append_rightI)
    ultimately show ?thesis using sublist_trans by blast
  next
    assume "t = last ss"
    then show ?thesis by simp
  qed
qed

text \<open>
  C5. In the document \<open>generate_html\<close> writes, every text taken from a post stands in its
  escaped form: the post text, the title, the date string, the tags, the external URL and
  each copied photo path appear as \<open>escape_str\<close> of the field inside the element of the
  template. For the tags this means: every tag of a rendered post is a str, the element
  of the tags holds the escaped form of the tags joined by a comma and a space, and so
  the escaped form of each tag. \<open>escape_str\<close> leaves none of the characters
  \<^verbatim>\<open>< > " '\<close> in a text; a text \<^verbatim>\<open><script>alert(1)</script>\<close> becomes
  \<^verbatim>\<open>&lt;script&gt;alert(1)&lt;/script&gt;\<close>; and the document holds no \<^verbatim>\<open><script\<close> at all.
\<close>

theorem html_fields_escaped:
  assumes "generate_html fs posts = Inr doc"
  shows \<open>\<not> sublist (ustr ''<script'') doc
     \<and> set (escape_str s) \<inter> {0x3C, 0x3E, 0x22, 0x27} = {}
     \<and> escape_str (ustr ''<script>alert(1)</script>'') = ustr ''&lt;script&gt;alert(1)&lt;/script&gt;''
     \<and> (p \<in> set posts \<and> post_text p = JStr t \<and> t \<noteq> [] \<longrightarrow>
          sublist (ustr ''<p class="post-text">'' @ escape_str t @ ustr ''</p>'') doc)
     \<and> (p \<in> set posts \<and> title p = JStr t \<and> t \<noteq> [] \<longrightarrow>
          sublist (ustr ''<p class="title">'' @ escape_str t @ ustr ''</p>'') doc)
     \<and> (p \<in> set posts \<and> date_string p \<noteq> [] \<longrightarrow>
          sublist (ustr ''<span class="date">'' @ escape_str (date_string p) @ ustr ''</span>'') doc)
     \<and> (p \<in> set posts \<and> tags p \<noteq> [] \<and> str_join (ustr '', '') (tags p) = Inr j \<longrightarrow>
          sublist (ustr ''<div class="tags">Ozna'' @ [0x10D] @ ustr ''en'' @ [0xED] @ ustr '': ''
                   @ escape_str j @ ustr ''</div>'') doc)
     \<and> (p \<in> set posts \<and> x \<in> set (tags p) \<longrightarrow> (\<exists>tg. x = JStr tg))
     \<and> (p \<in> set posts \<and> tags p = map JStr ss \<and> ss \<noteq> [] \<longrightarrow>
          sublist (ustr ''<div class="tags">Ozna'' @ [0x10D] @ ustr ''en'' @ [0xED] @ ustr '': ''
                   @ escape_str (concat (map (\<lambda>tg. tg @ ustr '', '') (butlast ss)) @ last ss)
                   @ ustr ''</div>'') doc)
     \<and> (p \<in> set posts \<and> JStr tg \<in> set (tags p) \<longrightarrow> sublist (escape_str tg) doc)
     \<and> (p \<in> set posts \<and> external_url p = JStr u \<and> u \<noteq> [] \<longrightarrow>
          sublist (ustr ''<a href="'' @ escape_str u
                   @ ustr ''" target="_blank" rel="noopener" class="external-link">Extern''
                   @ [0xFD] @ ustr '' odkaz</a>'') doc)
     \<and> (p \<in> set posts \<and> path \<in> set (photo_paths p) \<and> fs path = Some n \<longrightarrow>
          sublist (ustr ''<img src="'' @ escape_str (ustr ''photos/'' @ n)
                   @ ustr ''" alt="Photo" class="post-photo">'') doc)\<close>
proof -
  have script: "\<not> sublist (ustr ''<script'') doc"
    by (rule tag_safe_no_script [OF tag_safe_generate_html [OF assms]])
  have ex: "escape_str (ustr ''<script>alert(1)</script>'') = ustr ''&lt;script&gt;alert(1)&lt;/script&gt;''"
    by code_simp
  have frag: "\<exists>h tx ti tg e. sublist h doc \<and> text_html p = Inr tx \<and> title_html p = Inr ti
           \<and> tags_html p = Inr tg \<and> external_html p = Inr e
           \<and> sublist tx h \<and> sublist ti h \<and> sublist tg h \<and> sublist e h
           \<and> sublist (date_html p) h \<and> sublist (photo_html fs p) h" if "p \<in> set posts"
    using post_in_document [OF assms that] fragments_in_post by blast
  have 1: \<open>sublist (ustr ''<p class="post-text">'' @ escape_str t @ ustr ''</p>'') doc\<close>
    if "p \<in> set posts" "post_text p = JStr t" "t \<noteq> []"
  proof -
    from frag [OF that(1)] obtain h tx where "sublist h doc" "text_html p = Inr tx" "sublist tx h"
      by blast
    moreover have \<open>tx = ustr ''<p class="post-text">'' @ escape_str t @ ustr ''</p>''\<close>
      using \<open>text_html p = Inr tx\<close> that(2,3) unfolding text_html_Inr by simp
    ultimately show ?thesis using sublist_trans by blast
  qed
  have 2: \<open>sublist (ustr ''<p class="title">'' @ escape_str t @ ustr ''</p>'') doc\<close>
    if "p \<in> set posts" "title p = JStr t" "t \<noteq> []"
  proof -
    from frag [OF that(1)] obtain h ti where "sublist h doc" "title_html p = Inr ti" "sublist ti h"
      by blast
    moreover have \<open>ti = ustr ''<p class="title">'' @ escape_str t @ ustr ''</p>''\<close>
      using \<open>title_html p = Inr ti\<close> that(2,3) unfolding title_html_Inr by simp
    ultimately show ?thesis using sublist_trans by blast
  qed
  have 3: \<open>sublist (ustr ''<span class="date">'' @ escape_str (date_string p) @ ustr ''</span>'') doc\<close>
    if "p \<in> set posts" "date_string p \<noteq> []"
  proof -
    from frag [OF that(1)] obtain h where "sublist h doc" "sublist (date_html p) h"
      by blast
    moreover have \<open>date_html p = ustr ''<span class="date">'' @ escape_str (date_string p) @ ustr ''</span>''\<close>
      using that(2) unfolding date_html_def by simp
    ultimately show ?thesis using sublist_trans by metis
  qed
  have 4: \<open>sublist (ustr ''<div class="tags">Ozna'' @ [0x10D] @ ustr ''en'' @ [0xED] @ ustr '': ''
                   @ escape_str j @ ustr ''</div>'') doc\<close>
    if "p \<in> set posts" "tags p \<noteq> []" "str_join (ustr '', '') (tags p) = Inr j" for j
  proof -
    from frag [OF that(1)] obtain h tg where "sublist h doc" "tags_html p = Inr tg" "sublist tg h"
      by blast
    moreover have \<open>tg = ustr ''<div class="tags">Ozna'' @ [0x10D] @ ustr ''en'' @ [0xED] @ ustr '': ''
                   @ escape_str j @ ustr ''</div>''\<close>
      using \<open>tags_html p = Inr tg\<close> that(2,3) unfolding tags_html_Inr by simp
    ultimately show ?thesis using sublist_trans by blast
  qed
  have 5: \<open>sublist (ustr ''<a href="'' @ escape_str u
                   @ ustr ''" target="_blank" rel="noopener" class="external-link">Extern''
                   @ [0xFD] @ ustr '' odkaz</a>'') doc\<close>
    if "p \<in> set posts" "external_url p = JStr u" "u \<noteq> []"
  proof -
    from frag [OF that(1)] obtain h e where "sublist h doc" "external_html p = Inr e" "sublist e h"
      by blast
    moreover have \<open>e = ustr ''<a href="'' @ escape_str u
                   @ ustr ''" target="_blank" rel="noopener" class="external-link">Extern''
                   @ [0xFD] @ ustr '' odkaz</a>''\<close>
      using \<open>external_html p = Inr e\<close> that(2,3) unfolding external_html_Inr by simp
    ultimately show ?thesis using sublist_trans by blast
  qed
  have 6: \<open>sublist (ustr ''<img src="'' @ escape_str (ustr ''photos/'' @ n)
                   @ ustr ''" alt="Photo" class="post-photo">'') doc\<close>
    if "p \<in> set posts" "path \<in> set (photo_paths p)" "fs path = Some n"
  proof -
    from frag [OF that(1)] obtain h where "sublist h doc" "sublist (photo_html fs p) h"
      by blast
    then show ?thesis
      using photo_in_photo_html [where fs = fs, OF that(2,3)] sublist_trans by blast
  qed
  have tj: "\<exists>j tgs. tags p = map JStr tgs \<and> str_join (ustr '', '') (tags p) = Inr j
              \<and> j = (if tgs = [] then []
                       else concat (map (\<lambda>tg. tg @ ustr '', '') (butlast tgs)) @ last tgs)"
    if "p \<in> set posts"
  proof (cases "tags p = []")
    case True
    then show ?thesis by simp
  next
    case False
    from frag [OF that] obtain tg where "tags_html p = Inr tg" by blast
    then obtain j where j: "str_join (ustr '', '') (tags p) = Inr j"
      using False unfolding tags_html_Inr by auto
    from str_join_strs [OF j] show ?thesis using j by blast
  qed
  have 7: "\<exists>tg. x = JStr tg" if "p \<in> set posts" "x \<in> set (tags p)"
    using tj [OF that(1)] that(2) by auto
  have 8: \<open>sublist (ustr ''<div class="tags">Ozna'' @ [0x10D] @ ustr ''en'' @ [0xED] @ ustr '': ''
                   @ escape_str (concat (map (\<lambda>tg. tg @ ustr '', '') (butlast ss)) @ last ss)
                   @ ustr ''</div>'') doc\<close>
    if "p \<in> set posts" "tags p = map JStr ss" "ss \<noteq> []" for ss
  proof -
    from tj [OF that(1)] obtain j tgs where t: "tags p = map JStr tgs"
      and j: "str_join (ustr '', '') (tags p) = Inr j"
      and e: "j = (if tgs = [] then []
                   else concat (map (\<lambda>tg. tg @ ustr '', '') (butlast tgs)) @ last tgs)"
      by blast
    have "map JStr tgs = map JStr ss" using t that(2) by simp
    then have "tgs = ss" by (simp add: inj_map_eq_map inj_on_def)
    then have "j = concat (map (\<lambda>tg. tg @ ustr '', '') (butlast ss)) @ last ss"
      using e that(3) by simp
    moreover have "tags p \<noteq> []" using that(2,3) by simp
    ultimately show ?thesis using 4 [OF that(1) _ j] by simp
  qed
  have 9: "sublist (escape_str tg) doc" if "p \<in> set posts" "JStr tg \<in> set (tags p)"
  proof -
    from tj [OF that(1)] obtain tgs where t: "tags p = map JStr tgs" by blast
    then have m: "tg \<in> set tgs" using that(2) by auto
    then have ne: "tgs \<noteq> []" by auto
    let ?j = "concat (map (\<lambda>tg. tg @ ustr '', '') (butlast tgs)) @ last tgs"
    have "sublist (escape_str tg) (escape_str ?j)"
      by (rule escape_str_sublist [OF joined_contains [OF m]])
    moreover have \<open>sublist (escape_str ?j)
        (ustr ''<div class="tags">Ozna'' @ [0x10D] @ ustr ''en'' @ [0xED] @ ustr '': ''
           @ escape_str ?j @ ustr ''</div>'')\<close>
      using sublist_appendI [of "escape_str ?j"
          \<open>ustr ''<div class="tags">Ozna'' @ [0x10D] @ ustr ''en'' @ [0xED] @ ustr '': ''\<close>
          \<open>ustr ''</div>''\<close>]
      by simp
    ultimately show ?thesis using 8 [OF that(1) t ne] sublist_trans by blast
  qed
  show ?thesis using script escape_str_plain [of s] ex 1 2 3 4 [of j] 5 6 7 8 [of ss] 9 by blast
qed

theorem html_fields_escaped_witness:
  \<open>\<exists>doc. generate_html (\<lambda>p. Some (ustr ''<x>.png'')) [script_post] = Inr doc
     \<and> \<not> sublist (ustr ''<script'') doc
     \<and> sublist (ustr ''<p class="post-text">&lt;script&gt;alert(1)&lt;/script&gt;</p>'') doc
     \<and> sublist (ustr ''<p class="title">a &amp; b</p>'') doc
     \<and> sublist (ustr ''<a href="http://x/?a=&quot;b&quot;" target="_blank"'') doc
     \<and> sublist (ustr ''<img src="photos/&lt;x&gt;.png" alt="Photo" class="post-photo">'') doc
     \<and> sublist (ustr ''<div class="tags">Ozna'' @ [0x10D] @ ustr ''en'' @ [0xED]
                 @ ustr '': t&lt;1&gt;, u</div>'') doc
     \<and> sublist (ustr ''t&lt;1&gt;'') doc\<close>
proof -
  let ?fs = "\<lambda>p::pystr. Some (ustr ''<x>.png'')"
  have "\<exists>h. render_post ?fs script_post = Inr h"
    unfolding render_post_Inr text_html_Inr title_html_Inr tags_html_Inr external_html_Inr
    by (simp add: script_post_def)
  then obtain doc where d: "generate_html ?fs [script_post] = Inr doc"
    unfolding generate_html_Inr by auto
  have p: "script_post \<in> set [script_post]" by simp
  have f: \<open>post_text script_post = JStr (ustr ''<script>alert(1)</script>'')\<close>
    \<open>title script_post = JStr (ustr ''a & b'')\<close>
    \<open>external_url script_post = JStr (ustr ''http://x/?a="b"'')\<close>
    \<open>ustr ''m/<x>.png'' \<in> set (photo_paths script_post)\<close>
    by (simp_all add: script_post_def)
  have e1: \<open>ustr ''<p class="post-text">'' @ escape_str (ustr ''<script>alert(1)</script>'') @ ustr ''</p>''
            = ustr ''<p class="post-text">&lt;script&gt;alert(1)&lt;/script&gt;</p>''\<close>
    by code_simp
  have e2: \<open>ustr ''<p class="title">'' @ escape_str (ustr ''a & b'') @ ustr ''</p>''
            = ustr ''<p class="title">a &amp; b</p>''\<close>
    by code_simp
  have e3: \<open>sublist (ustr ''<a href="http://x/?a=&quot;b&quot;" target="_blank"'')
             (ustr ''<a href="'' @ escape_str (ustr ''http://x/?a="b"'')
                   @ ustr ''" target="_blank" rel="noopener" class="external-link">Extern''
                   @ [0xFD] @ ustr '' odkaz</a>'')\<close>
    by code_simp
  have e4: \<open>ustr ''<img src="'' @ escape_str (ustr ''photos/'' @ ustr ''<x>.png'')
                   @ ustr ''" alt="Photo" class="post-photo">''
            = ustr ''<img src="photos/&lt;x&gt;.png" alt="Photo" class="post-photo">''\<close>
    by code_simp
  note t = html_fields_escaped [OF d, where p = script_post and path = "ustr ''m/<x>.png''"
      and n = "ustr ''<x>.png''"]
  have 0: "\<not> sublist (ustr ''<script'') doc" using t by blast
  have 1: \<open>sublist (ustr ''<p class="post-text">&lt;script&gt;alert(1)&lt;/script&gt;</p>'') doc\<close>
    using t [where t = "ustr ''<script>alert(1)</script>''"] p f(1) e1 by simp
  have 2: \<open>sublist (ustr ''<p class="title">a &amp; b</p>'') doc\<close>
    using t [where t = "ustr ''a & b''"] p f(2) e2 by simp
  have 3: \<open>sublist (ustr ''<a href="http://x/?a=&quot;b&quot;" target="_blank"'') doc\<close>
    using t [where u = \<open>ustr ''http://x/?a="b"''\<close>] p f(3) e3 sublist_trans by simp blast
  have 4: \<open>sublist (ustr ''<img src="photos/&lt;x&gt;.png" alt="Photo" class="post-photo">'') doc\<close>
    using t p f(4) e4 by simp
  have g: \<open>tags script_post = map JStr [ustr ''t<1>'', ustr ''u'']\<close>
    \<open>JStr (ustr ''t<1>'') \<in> set (tags script_post)\<close>
    by (simp_all add: script_post_def)
  have e5: \<open>ustr ''<div class="tags">Ozna'' @ [0x10D] @ ustr ''en'' @ [0xED] @ ustr '': ''
             @ escape_str (concat (map (\<lambda>tg. tg @ ustr '', '') (butlast [ustr ''t<1>'', ustr ''u'']))
                           @ last [ustr ''t<1>'', ustr ''u''])
             @ ustr ''</div>''
            = ustr ''<div class="tags">Ozna'' @ [0x10D] @ ustr ''en'' @ [0xED]
                 @ ustr '': t&lt;1&gt;, u</div>''\<close>
    by code_simp
  have e6: \<open>escape_str (ustr ''t<1>'') = ustr ''t&lt;1&gt;''\<close>
    by code_simp
  have 5: \<open>sublist (ustr ''<div class="tags">Ozna'' @ [0x10D] @ ustr ''en'' @ [0xED]
                 @ ustr '': t&lt;1&gt;, u</div>'') doc\<close>
    using t [where ss = \<open>[ustr ''t<1>'', ustr ''u'']\<close>] p g(1) e5 by simp
  have 6: \<open>sublist (ustr ''t&lt;1&gt;'') doc\<close>
    using t [where tg = \<open>ustr ''t<1>''\<close>] p g(2) e6 by simp
  show ?thesis using d 0 1 2 3 4 5 6 by blast
qed

end
